theory Spec2Isabelle
  imports Complex_Main
begin

section \<open>Streamerphile: the client-side live view (src/web/static/app.js)\<close>

text \<open>
  A shallow embedding of the parts of \<^verbatim>\<open>app.js\<close> that the specification makes claims
  about. Every definition carries the name of the JavaScript function it is translated
  from. Exceptions are values: a function that can throw returns \<open>error + 'a\<close>, with
  \<open>Inl\<close> for the exception.
\<close>

datatype error = ReferenceError | TypeError | URIError

section \<open>Layout balancer\<close>

text \<open>
  The element \<^verbatim>\<open>#followedGames\<close>, as far as the two layout functions read and write it:
  its \<^verbatim>\<open>clientWidth\<close> and its inline style \<^verbatim>\<open>columnCount\<close> (\<open>None\<close> is the empty
  string of an unset style). \<^verbatim>\<open>$("followedGames")\<close> is an option: \<open>None\<close> when the
  element is missing.
\<close>

record masonry =
  clientWidth :: int
  columnCount :: "int option"

definition MASONRY_COL_WIDTH :: int where
  "MASONRY_COL_WIDTH = 320"

definition MASONRY_COL_GAP :: int where
  "MASONRY_COL_GAP = 16"

text \<open>
  \<^verbatim>\<open>const fit = Math.max(1, Math.floor((w + GAP) / (WIDTH + GAP)))\<close>. On integers
  \<open>div\<close> is the floor of the quotient.
\<close>

definition fit_of :: "int \<Rightarrow> int" where
  "fit_of w = max 1 ((w + MASONRY_COL_GAP) div (MASONRY_COL_WIDTH + MASONRY_COL_GAP))"

text \<open>
  \<^verbatim>\<open>updateMasonryColumns(cardCount)\<close>. The third statement of its body is the expression
  statement \<^verbatim>\<open>Ratelimit-Reset\<close>: it reads the identifiers \<^verbatim>\<open>Ratelimit\<close> and
  \<^verbatim>\<open>Reset\<close>, left operand first. \<^verbatim>\<open>app.js\<close> declares neither; \<open>scope\<close> tells which
  identifiers the global scope binds, and reading an unbound one throws a ReferenceError.
  Where both are bound the subtraction is taken to have no effect. The callers pass
  array lengths and the literal 1 as \<open>cardCount\<close>, so \<^verbatim>\<open>Number(cardCount) || 0\<close> is the
  integer itself.
\<close>

definition updateMasonryColumns ::
    "(string \<Rightarrow> bool) \<Rightarrow> masonry option \<Rightarrow> int \<Rightarrow> error + masonry option" where
  "updateMasonryColumns scope rootEl cardCount =
     (case rootEl of
        None \<Rightarrow> Inr None
      | Some r \<Rightarrow>
          if \<not> scope ''Ratelimit'' then Inl ReferenceError
          else if \<not> scope ''Reset'' then Inl ReferenceError
          else
            let count = max 0 cardCount;
                w = clientWidth r;
                fit = fit_of w;
                cols = max 1 (min fit (max 1 count))
            in Inr (Some (r\<lparr>columnCount := Some cols\<rparr>)))"

text \<open>
  \<^verbatim>\<open>clampMasonryToUsedColumns()\<close>. \<open>lefts\<close> is the \<^verbatim>\<open>offsetLeft\<close> of every element
  child of the root at the moment of the call, as the browser has laid them out;
  \<^verbatim>\<open>new Set(...).size\<close> is the number of distinct values.
\<close>

definition clampMasonryToUsedColumns :: "masonry option \<Rightarrow> int list \<Rightarrow> masonry option" where
  "clampMasonryToUsedColumns rootEl lefts =
     (case rootEl of
        None \<Rightarrow> None
      | Some r \<Rightarrow>
          if lefts = [] then Some r
          else
            let used = max 1 (int (length (remdups lefts)));
                current = (case columnCount r of None \<Rightarrow> 0 | Some c \<Rightarrow> c)
            in if current \<noteq> 0 \<and> used < current
               then Some (r\<lparr>columnCount := Some used\<rparr>)
               else Some r)"

text \<open>
  The tail of \<^verbatim>\<open>renderFollowedGames\<close> (and the body of the resize handler):
  \<^verbatim>\<open>updateMasonryColumns(n)\<close>, then \<^verbatim>\<open>clampMasonryToUsedColumns()\<close> on each of the next
  two animation frames. \<open>l1\<close> and \<open>l2\<close> are the offsets the browser reports on those two
  frames. An exception in the first call leaves both frames unrequested.
\<close>

definition layout_after_render ::
    "(string \<Rightarrow> bool) \<Rightarrow> masonry option \<Rightarrow> int \<Rightarrow> int list \<Rightarrow> int list \<Rightarrow> error + masonry option" where
  "layout_after_render scope rootEl n l1 l2 =
     (case updateMasonryColumns scope rootEl n of
        Inl e \<Rightarrow> Inl e
      | Inr root1 \<Rightarrow>
          Inr (clampMasonryToUsedColumns (clampMasonryToUsedColumns root1 l1) l2))"

section \<open>JavaScript values and coercions\<close>

text \<open>
  What \<^verbatim>\<open>JSON.parse\<close> can return, and \<^verbatim>\<open>undefined\<close> for a missing property. A number
  is a double: not-a-number, an infinity, or a finite value, which is a rational
  (negative zero is identified with zero: \<^verbatim>\<open>String\<close>, \<^verbatim>\<open>JSON.stringify\<close> and
  \<^verbatim>\<open>===\<close> do not tell them apart). An object is its list of own properties, and a string
  is a list of characters.
\<close>

datatype jsnum = NaN | PosInf | NegInf | Fin rat

datatype jsval =
    JUndefined
  | JNull
  | JBool bool
  | JNum jsnum
  | JStr string
  | JArr "jsval list"
  | JObj "(string \<times> jsval) list"

text \<open>
  The built-in functions of the language and the browser that the model does not define:
  \<^verbatim>\<open>Number.prototype.toString\<close>, the numeric-literal grammar of \<^verbatim>\<open>Number(string)\<close>
  (applied to a trimmed, non-empty string), \<^verbatim>\<open>JSON.parse\<close> (\<open>None\<close> for a SyntaxError)
  and \<^verbatim>\<open>decodeURIComponent\<close> (\<open>None\<close> for a URIError).
\<close>

record host =
  numberToString :: "jsnum \<Rightarrow> string"
  strNumericLiteral :: "string \<Rightarrow> jsnum"
  jsonParse :: "string \<Rightarrow> jsval option"
  decodeURIComponent :: "string \<Rightarrow> string option"

text \<open>Truthiness (\<^verbatim>\<open>ToBoolean\<close>), as \<^verbatim>\<open>!x\<close>, \<^verbatim>\<open>x ? a : b\<close> and \<^verbatim>\<open>Boolean(x)\<close> use it.\<close>

fun truthy :: "jsval \<Rightarrow> bool" where
  "truthy JUndefined = False"
| "truthy JNull = False"
| "truthy (JBool b) = b"
| "truthy (JNum n) = (n \<noteq> NaN \<and> n \<noteq> Fin 0)"
| "truthy (JStr s) = (s \<noteq> [])"
| "truthy (JArr xs) = True"
| "truthy (JObj kvs) = True"

text \<open>\<^verbatim>\<open>typeof x === "object"\<close>: arrays, objects and \<^verbatim>\<open>null\<close>.\<close>

fun typeof_object :: "jsval \<Rightarrow> bool" where
  "typeof_object JNull = True"
| "typeof_object (JArr xs) = True"
| "typeof_object (JObj kvs) = True"
| "typeof_object v = False"

text \<open>
  Reading a property the prototypes do not have (\<^verbatim>\<open>id\<close>, \<^verbatim>\<open>name\<close>, \<^verbatim>\<open>minViewers\<close>, ...)
  from an object or array: the own property, else \<^verbatim>\<open>undefined\<close>.
\<close>

fun get_prop :: "jsval \<Rightarrow> string \<Rightarrow> jsval" where
  "get_prop (JObj kvs) k = (case map_of kvs k of Some v \<Rightarrow> v | None \<Rightarrow> JUndefined)"
| "get_prop v k = JUndefined"

text \<open>\<^verbatim>\<open>a ?? b\<close>.\<close>

definition nullish :: "jsval \<Rightarrow> bool" where
  "nullish v = (v = JUndefined \<or> v = JNull)"

definition coalesce :: "jsval \<Rightarrow> jsval \<Rightarrow> jsval" where
  "coalesce a b = (if nullish a then b else a)"

text \<open>
  \<^verbatim>\<open>String.prototype.trim\<close> and the white space that \<^verbatim>\<open>Number(string)\<close> strips. A
  character of the model is a code unit below U+0100, so the strings of the model are
  the strings over that range; there the white space and line terminators of the
  language are TAB, LF, VT, FF, CR, SPACE and the no-break space U+00A0 (U+0085 is
  neither).
\<close>

definition is_space :: "char \<Rightarrow> bool" where
  "is_space c =
     (c \<in> set [CHR 0x09, CHR 0x0A, CHR 0x0B, CHR 0x0C, CHR 0x0D, CHR 0x20, CHR 0xA0])"

definition trim :: "string \<Rightarrow> string" where
  "trim s = rev (dropWhile is_space (rev (dropWhile is_space s)))"

text \<open>\<^verbatim>\<open>Array.prototype.join\<close> on strings.\<close>

fun join :: "string \<Rightarrow> string list \<Rightarrow> string" where
  "join sep [] = []"
| "join sep [s] = s"
| "join sep (s # t # ss) = s @ sep @ join sep (t # ss)"

text \<open>Evaluating a list of computations in order; the first exception wins.\<close>

fun sequence :: "(error + 'a) list \<Rightarrow> error + 'a list" where
  "sequence [] = Inr []"
| "sequence (x # xs) =
     (case x of
        Inl e \<Rightarrow> Inl e
      | Inr v \<Rightarrow> (case sequence xs of Inl e \<Rightarrow> Inl e | Inr vs \<Rightarrow> Inr (v # vs)))"

text \<open>
  \<^verbatim>\<open>String(x)\<close>. An array joins the strings of its elements with commas, \<^verbatim>\<open>null\<close> and
  \<^verbatim>\<open>undefined\<close> elements giving the empty string. An object goes through
  \<^verbatim>\<open>OrdinaryToPrimitive\<close>: an own property \<^verbatim>\<open>toString\<close> of a parsed object is never
  callable and shadows \<^verbatim>\<open>Object.prototype.toString\<close>, \<^verbatim>\<open>valueOf\<close> then yields no
  primitive either, and the conversion throws a TypeError; without it the result is
  \<^verbatim>\<open>"[object Object]"\<close>.
\<close>

fun ToString :: "host \<Rightarrow> jsval \<Rightarrow> error + string" where
  "ToString h JUndefined = Inr ''undefined''"
| "ToString h JNull = Inr ''null''"
| "ToString h (JBool b) = Inr (if b then ''true'' else ''false'')"
| "ToString h (JNum n) = Inr (numberToString h n)"
| "ToString h (JStr s) = Inr s"
| "ToString h (JArr xs) =
     (case sequence (map (\<lambda>x. if nullish x then Inr [] else ToString h x) xs) of
        Inl e \<Rightarrow> Inl e
      | Inr ss \<Rightarrow> Inr (join '','' ss))"
| "ToString h (JObj kvs) =
     (if ''toString'' \<in> set (map fst kvs) then Inl TypeError else Inr ''[object Object]'')"

text \<open>\<^verbatim>\<open>Number(string)\<close>: white space is stripped, and nothing left is zero.\<close>

definition StringToNumber :: "host \<Rightarrow> string \<Rightarrow> jsnum" where
  "StringToNumber h s = (let t = trim s in if t = [] then Fin 0 else strNumericLiteral h t)"

text \<open>
  \<^verbatim>\<open>Number(x)\<close>. An array or object is converted to a primitive first; its
  \<^verbatim>\<open>valueOf\<close> never yields one, so that primitive is its string.
\<close>

fun ToNumber :: "host \<Rightarrow> jsval \<Rightarrow> error + jsnum" where
  "ToNumber h JUndefined = Inr NaN"
| "ToNumber h JNull = Inr (Fin 0)"
| "ToNumber h (JBool b) = Inr (Fin (if b then 1 else 0))"
| "ToNumber h (JNum n) = Inr n"
| "ToNumber h (JStr s) = Inr (StringToNumber h s)"
| "ToNumber h v = (case ToString h v of Inl e \<Rightarrow> Inl e | Inr s \<Rightarrow> Inr (StringToNumber h s))"

text \<open>\<^verbatim>\<open>Math.trunc\<close> on a finite number: rounding towards zero.\<close>

definition trunc :: "rat \<Rightarrow> int" where
  "trunc q = (if 0 \<le> q then \<lfloor>q\<rfloor> else \<lceil>q\<rceil>)"

section \<open>Numeric filter parsing\<close>

text \<open>\<^verbatim>\<open>clampInt(x)\<close>; \<open>None\<close> is \<^verbatim>\<open>null\<close>.\<close>

definition clampInt :: "host \<Rightarrow> jsval \<Rightarrow> error + int option" where
  "clampInt h x =
     (if x = JStr [] \<or> x = JNull \<or> x = JUndefined then Inr None
      else case ToNumber h x of
             Inl e \<Rightarrow> Inl e
           | Inr n \<Rightarrow> (case n of Fin q \<Rightarrow> Inr (Some (trunc q)) | _ \<Rightarrow> Inr None))"

record filters =
  verifiedOnly :: bool
  minViewers :: "int option"
  maxViewers :: "int option"
  minFollowers :: "int option"
  maxFollowers :: "int option"

definition base_filters :: filters where
  "base_filters = \<lparr>verifiedOnly = False, minViewers = None, maxViewers = None,
                    minFollowers = None, maxFollowers = None\<rparr>"

text \<open>\<^verbatim>\<open>normalizeFilters(raw)\<close>; the fields are evaluated in the order of the literal.\<close>

definition normalizeFilters :: "host \<Rightarrow> jsval \<Rightarrow> error + filters" where
  "normalizeFilters h raw =
     (if \<not> truthy raw \<or> \<not> typeof_object raw then Inr base_filters
      else
        case clampInt h (get_prop raw ''minViewers'') of Inl e \<Rightarrow> Inl e | Inr a \<Rightarrow>
        case clampInt h (get_prop raw ''maxViewers'') of Inl e \<Rightarrow> Inl e | Inr b \<Rightarrow>
        case clampInt h (get_prop raw ''minFollowers'') of Inl e \<Rightarrow> Inl e | Inr c \<Rightarrow>
        case clampInt h (get_prop raw ''maxFollowers'') of Inl e \<Rightarrow> Inl e | Inr d \<Rightarrow>
          Inr \<lparr>verifiedOnly = truthy (get_prop raw ''verifiedOnly''), minViewers = a, maxViewers = b,
               minFollowers = c, maxFollowers = d\<rparr>)"

section \<open>Ignored users\<close>

text \<open>An entry of \<^verbatim>\<open>state.ignoredUsers\<close>: \<^verbatim>\<open>{ id, name }\<close>, the name a string or \<^verbatim>\<open>null\<close>.\<close>

record ignored_user =
  uid :: string
  uname :: "string option"

text \<open>
  Truthiness of a name that is a string or \<^verbatim>\<open>null\<close>: \<^verbatim>\<open>null\<close> and the empty string
  are falsy.
\<close>

definition has_name :: "string option \<Rightarrow> bool" where
  "has_name n = (n \<noteq> None \<and> n \<noteq> Some [])"

text \<open>
  One iteration of the first loop of \<^verbatim>\<open>normalizeIgnored\<close>: the entries that the item
  pushes onto \<^verbatim>\<open>out\<close> (none or one). \<open>normalize_object\<close> is the body of the second
  \<^verbatim>\<open>if\<close>, for an item that is an object or an array.
\<close>

definition normalize_object :: "host \<Rightarrow> jsval \<Rightarrow> error + ignored_user list" where
  "normalize_object h item =
     (let id = coalesce (get_prop item ''id'') (get_prop item ''user_id'');
          name = coalesce (coalesce (get_prop item ''name'') (get_prop item ''user_name'')) JNull
      in if id = JUndefined \<or> id = JNull then Inr []
         else case ToString h id of
                Inl e \<Rightarrow> Inl e
              | Inr sid \<Rightarrow>
                  if trim sid = [] then Inr []
                  else if truthy name then
                    (case ToString h name of
                       Inl e \<Rightarrow> Inl e
                     | Inr sname \<Rightarrow> Inr [\<lparr>uid = sid, uname = Some sname\<rparr>])
                  else Inr [\<lparr>uid = sid, uname = None\<rparr>])"

definition normalize_item :: "host \<Rightarrow> jsval \<Rightarrow> error + ignored_user list" where
  "normalize_item h item =
     (case item of
        JStr s \<Rightarrow> Inr [\<lparr>uid = s, uname = None\<rparr>]
      | JNum n \<Rightarrow> Inr [\<lparr>uid = numberToString h n, uname = None\<rparr>]
      | _ \<Rightarrow> if truthy item \<and> typeof_object item then normalize_object h item else Inr [])"

text \<open>
  \<^verbatim>\<open>if (!e.name && sname) e.name = sname\<close> on an entry \<open>e\<close> whose id is \<open>sid\<close>: the
  statement that both \<^verbatim>\<open>normalizeIgnored\<close> and \<^verbatim>\<open>upsertIgnoredUser\<close> apply to the
  entry already present.
\<close>

definition fill_name :: "string \<Rightarrow> string option \<Rightarrow> ignored_user \<Rightarrow> ignored_user" where
  "fill_name sid sname e =
     (if uid e = sid \<and> \<not> has_name (uname e) \<and> has_name sname then e\<lparr>uname := sname\<rparr> else e)"

text \<open>
  One iteration of the second loop: \<open>m\<close> is the \<^verbatim>\<open>Map\<close>, as the list of its values in
  insertion order (its keys are their ids, so at most one entry has the id of \<open>u\<close>).
\<close>

definition merge_ignored :: "ignored_user list \<Rightarrow> ignored_user \<Rightarrow> ignored_user list" where
  "merge_ignored m u =
     (if uid u \<notin> set (map uid m) then m @ [\<lparr>uid = uid u, uname = uname u\<rparr>]
      else map (fill_name (uid u) (uname u)) m)"

text \<open>\<^verbatim>\<open>normalizeIgnored(raw)\<close>.\<close>

definition normalizeIgnored :: "host \<Rightarrow> jsval \<Rightarrow> error + ignored_user list" where
  "normalizeIgnored h raw =
     (case raw of
        JArr items \<Rightarrow>
          (case sequence (map (normalize_item h) items) of
             Inl e \<Rightarrow> Inl e
           | Inr outs \<Rightarrow> Inr (foldl merge_ignored [] (concat outs)))
      | _ \<Rightarrow> Inr [])"

text \<open>
  The value that \<^verbatim>\<open>JSON.parse\<close> returns for what \<^verbatim>\<open>syncIgnoredCookie\<close> stored
  (\<^verbatim>\<open>JSON.stringify(state.ignoredUsers)\<close>): each entry an object with the properties
  \<^verbatim>\<open>id\<close> and \<^verbatim>\<open>name\<close>.
\<close>

definition stored_entry :: "ignored_user \<Rightarrow> jsval" where
  "stored_entry u =
     JObj [(''id'', JStr (uid u)), (''name'', case uname u of None \<Rightarrow> JNull | Some n \<Rightarrow> JStr n)]"

text \<open>The same statement on the first entry of the list whose id is \<open>sid\<close> (the one
  \<^verbatim>\<open>find\<close> returns).\<close>

fun fill_first :: "string \<Rightarrow> string option \<Rightarrow> ignored_user list \<Rightarrow> ignored_user list" where
  "fill_first sid sname [] = []"
| "fill_first sid sname (x # xs) =
     (if uid x = sid then fill_name sid sname x # xs else x # fill_first sid sname xs)"

text \<open>
  \<^verbatim>\<open>upsertIgnoredUser(id, name)\<close> on \<^verbatim>\<open>state.ignoredUsers\<close>. Its caller passes a string
  id and \<^verbatim>\<open>s.user_name || null\<close>, a string or \<^verbatim>\<open>null\<close>.
\<close>

definition upsertIgnoredUser :: "ignored_user list \<Rightarrow> string \<Rightarrow> string option \<Rightarrow> ignored_user list" where
  "upsertIgnoredUser us sid name =
     (let sname = (if has_name name then name else None)
      in case find (\<lambda>x. uid x = sid) us of
           Some existing \<Rightarrow> fill_first sid sname us
         | None \<Rightarrow> us @ [\<lparr>uid = sid, uname = sname\<rparr>])"

section \<open>Payloads\<close>

text \<open>
  A stream and a game group of the payload of \<^verbatim>\<open>/api/streams\<close>, with the identifiers
  already strings (\<^verbatim>\<open>String(s.id)\<close>, \<^verbatim>\<open>String(s.user_id)\<close>, \<^verbatim>\<open>String(g.game.id)\<close>).
  \<open>None\<close> for the payload is a missing payload or one without \<^verbatim>\<open>games\<close>.
\<close>

record stream =
  stream_id :: string
  user_id :: string
  user_name :: "string option"
  viewer_count :: int
  title :: string

record game_group =
  game_id :: string
  game_name :: string
  streams :: "stream list"

type_synonym payload = "game_group list"

text \<open>
  \<^verbatim>\<open>backfillIgnoredNamesFromPayload(payload)\<close>. The \<^verbatim>\<open>Map\<close> \<open>m\<close> holds, for each id, the
  last object of the array with that id; the objects are shared with the array, so the
  loop writes into the array, at the position \<open>last_index\<close> gives.
\<close>

definition last_index :: "string \<Rightarrow> ignored_user list \<Rightarrow> nat option" where
  "last_index k us =
     (case filter (\<lambda>i. uid (us ! i) = k) (rev [0..<length us]) of
        [] \<Rightarrow> None
      | i # _ \<Rightarrow> Some i)"

fun backfill_stream :: "ignored_user list \<times> bool \<Rightarrow> stream \<Rightarrow> ignored_user list \<times> bool" where
  "backfill_stream (us, changed) s =
     (case last_index (user_id s) us of
        None \<Rightarrow> (us, changed)
      | Some i \<Rightarrow>
          if \<not> has_name (uname (us ! i)) \<and> has_name (user_name s)
          then (us[i := (us ! i)\<lparr>uname := user_name s\<rparr>], True)
          else (us, changed))"

text \<open>\<^verbatim>\<open>Array.from(new Set(arr))\<close>: the first occurrence of each element, in order.\<close>

definition unique :: "'a list \<Rightarrow> 'a list" where
  "unique xs = rev (remdups (rev xs))"

text \<open>\<^verbatim>\<open>Array.from(m.values())\<close> for that \<^verbatim>\<open>Map\<close>.\<close>

definition map_values :: "ignored_user list \<Rightarrow> ignored_user list" where
  "map_values us =
     concat (map (\<lambda>k. case last_index k us of Some i \<Rightarrow> [us ! i] | None \<Rightarrow> [])
                 (unique (map uid us)))"

definition backfillIgnoredNamesFromPayload :: "ignored_user list \<Rightarrow> payload option \<Rightarrow> ignored_user list" where
  "backfillIgnoredNamesFromPayload us payload =
     (case payload of
        None \<Rightarrow> us
      | Some games \<Rightarrow>
          if us = [] then us
          else
            let (us', changed) = foldl backfill_stream (us, False) (concat (map streams games))
            in if changed then map_values us' else us)"

text \<open>
  What "no name is cleared" says of a list of ignored users before and after an
  operation: the ids are the same, position by position, an entry with a non-empty name
  is untouched, and an entry whose name is not \<^verbatim>\<open>null\<close> does not get \<^verbatim>\<open>null\<close>.
\<close>

definition names_kept :: "ignored_user list \<Rightarrow> ignored_user list \<Rightarrow> bool" where
  "names_kept us us' \<longleftrightarrow>
     map uid us' = map uid us
     \<and> (\<forall>i<length us. (has_name (uname (us ! i)) \<longrightarrow> us' ! i = us ! i)
                       \<and> (uname (us ! i) \<noteq> None \<longrightarrow> uname (us' ! i) \<noteq> None))"

section \<open>Filter edits and their debounce\<close>

text \<open>
  Time is in milliseconds. Of the state the filter handlers touch, the model keeps
  \<^verbatim>\<open>state.filters\<close>, the pending timer \<^verbatim>\<open>_filtersDebounce\<close> (the time it is due,
  \<open>None\<close> when there is none) and a log of the times at which the handlers or the timer
  called \<^verbatim>\<open>refreshStreams()\<close>. \<^verbatim>\<open>saveFilters()\<close> writes a cookie and is left out.
\<close>

datatype numfield = MinViewers | MaxViewers | MinFollowers | MaxFollowers

datatype fevent =
    NumberInput numfield string   \<comment> \<open>an \<^verbatim>\<open>input\<close> event on a number field, with the field's value\<close>
  | VerifiedChange bool           \<comment> \<open>a \<^verbatim>\<open>change\<close> event on the checkbox, with its \<^verbatim>\<open>checked\<close>\<close>

record fstate =
  fs_filters :: filters
  filtersDebounce :: "nat option"
  refreshCalls :: "nat list"

text \<open>The timer callback of \<^verbatim>\<open>scheduleFilterRefresh\<close>, run once the clock reaches its time.\<close>

definition fire_due :: "nat \<Rightarrow> fstate \<Rightarrow> fstate" where
  "fire_due now st =
     (case filtersDebounce st of
        Some due \<Rightarrow>
          if due \<le> now
          then st\<lparr>filtersDebounce := None, refreshCalls := refreshCalls st @ [due]\<rparr>
          else st
      | None \<Rightarrow> st)"

text \<open>
  \<^verbatim>\<open>scheduleFilterRefresh()\<close>: a pending timer is cleared and a new one set, due in
  250 ms.
\<close>

definition scheduleFilterRefresh :: "nat \<Rightarrow> fstate \<Rightarrow> fstate" where
  "scheduleFilterRefresh now st = st\<lparr>filtersDebounce := Some (now + 250)\<rparr>"

fun set_field :: "numfield \<Rightarrow> int option \<Rightarrow> filters \<Rightarrow> filters" where
  "set_field MinViewers v f = f\<lparr>minViewers := v\<rparr>"
| "set_field MaxViewers v f = f\<lparr>maxViewers := v\<rparr>"
| "set_field MinFollowers v f = f\<lparr>minFollowers := v\<rparr>"
| "set_field MaxFollowers v f = f\<lparr>maxFollowers := v\<rparr>"

text \<open>
  The handlers that \<^verbatim>\<open>bindFilterHandlers\<close> installs, run on an event at time \<open>now\<close>
  (a timer due by then has fired first). The number handler stores
  \<^verbatim>\<open>clampInt($(id).value)\<close> and schedules; an exception would end it before that. The
  checkbox handler stores the flag and calls \<^verbatim>\<open>refreshStreams()\<close> itself.
\<close>

definition on_filter_event :: "host \<Rightarrow> fstate \<Rightarrow> nat \<times> fevent \<Rightarrow> fstate" where
  "on_filter_event h st0 ev =
     (let now = fst ev; st = fire_due now st0
      in case snd ev of
           NumberInput key v \<Rightarrow>
             (case clampInt h (JStr v) of
                Inl e \<Rightarrow> st
              | Inr n \<Rightarrow> scheduleFilterRefresh now (st\<lparr>fs_filters := set_field key n (fs_filters st)\<rparr>))
         | VerifiedChange b \<Rightarrow>
             st\<lparr>fs_filters := (fs_filters st)\<lparr>verifiedOnly := b\<rparr>,
                refreshCalls := refreshCalls st @ [now]\<rparr>)"

definition run_filter_events :: "host \<Rightarrow> fstate \<Rightarrow> (nat \<times> fevent) list \<Rightarrow> fstate" where
  "run_filter_events h st evs = foldl (on_filter_event h) st evs"

fun is_number_input :: "fevent \<Rightarrow> bool" where
  "is_number_input (NumberInput key v) = True"
| "is_number_input (VerifiedChange b) = False"

definition filter_init :: fstate where
  "filter_init = \<lparr>fs_filters = base_filters, filtersDebounce = None, refreshCalls = []\<rparr>"

section \<open>Refresh controller\<close>

text \<open>
  What \<^verbatim>\<open>_refreshStreamsOnce\<close> reads to build its request: the followed game ids, the
  filters and the ids of the ignored users.
\<close>

record config =
  followedGameIds :: "string list"
  cfg_filters :: filters
  ignoredIds :: "string list"

text \<open>The query of \<^verbatim>\<open>/api/streams\<close>; an absent parameter is \<open>None\<close> or the empty list.\<close>

record request =
  rq_game_ids :: "string list"
  rq_status :: string
  rq_min_viewers :: "int option"
  rq_max_viewers :: "int option"
  rq_min_followers :: "int option"
  rq_max_followers :: "int option"
  rq_ignored :: "string list"

definition requireStatus :: "filters \<Rightarrow> string" where
  "requireStatus f = (if verifiedOnly f then ''verified'' else ''any'')"

definition stream_request :: "config \<Rightarrow> request" where
  "stream_request c =
     \<lparr>rq_game_ids = followedGameIds c,
      rq_status = requireStatus (cfg_filters c),
      rq_min_viewers = minViewers (cfg_filters c),
      rq_max_viewers = maxViewers (cfg_filters c),
      rq_min_followers = minFollowers (cfg_filters c),
      rq_max_followers = maxFollowers (cfg_filters c),
      rq_ignored = ignoredIds c\<rparr>"

text \<open>
  The controller: the two flags of \<^verbatim>\<open>state\<close>, the fetches whose response has not
  arrived, every fetch issued so far, and the number of times \<^verbatim>\<open>_refreshStreamsOnce\<close>
  has been entered.
\<close>

record rstate =
  cfg :: config
  refreshInFlight :: bool
  refreshQueued :: bool
  outstanding :: "request list"
  issued :: "request list"
  runs :: nat

text \<open>
  \<^verbatim>\<open>_refreshStreamsOnce()\<close> up to its first \<^verbatim>\<open>await\<close>: with no followed game it returns
  without a fetch, otherwise it issues the fetch built from the state as it is now.
\<close>

definition refreshStreamsOnce_start :: "rstate \<Rightarrow> rstate" where
  "refreshStreamsOnce_start st =
     (if followedGameIds (cfg st) = [] then st\<lparr>runs := Suc (runs st)\<rparr>
      else st\<lparr>runs := Suc (runs st),
              outstanding := outstanding st @ [stream_request (cfg st)],
              issued := issued st @ [stream_request (cfg st)]\<rparr>)"

text \<open>\<^verbatim>\<open>refreshStreams()\<close> up to its \<^verbatim>\<open>await\<close>.\<close>

definition refreshStreams :: "rstate \<Rightarrow> rstate" where
  "refreshStreams st =
     (if refreshInFlight st then st\<lparr>refreshQueued := True\<rparr>
      else refreshStreamsOnce_start (st\<lparr>refreshInFlight := True\<rparr>))"

text \<open>
  The awaited \<^verbatim>\<open>_refreshStreamsOnce()\<close> settles, fulfilled or rejected (its fetch, if it
  issued one, is no longer outstanding), and the \<^verbatim>\<open>finally\<close> block of
  \<^verbatim>\<open>refreshStreams\<close> runs. Nothing awaits when no refresh is in flight.
\<close>

definition refresh_settles :: "rstate \<Rightarrow> rstate" where
  "refresh_settles st =
     (if \<not> refreshInFlight st then st
      else
        let st1 = st\<lparr>outstanding := drop 1 (outstanding st), refreshInFlight := False\<rparr>
        in if refreshQueued st1 then refreshStreams (st1\<lparr>refreshQueued := False\<rparr>) else st1)"

datatype revent =
    Refresh             \<comment> \<open>something calls \<^verbatim>\<open>refreshStreams()\<close>\<close>
  | Settle              \<comment> \<open>the active refresh completes\<close>
  | SetConfig config    \<comment> \<open>a handler changes the followed set, the filters or the ignored users\<close>

fun refresh_step :: "rstate \<Rightarrow> revent \<Rightarrow> rstate" where
  "refresh_step st Refresh = refreshStreams st"
| "refresh_step st Settle = refresh_settles st"
| "refresh_step st (SetConfig c) = st\<lparr>cfg := c\<rparr>"

definition refresh_run :: "rstate \<Rightarrow> revent list \<Rightarrow> rstate" where
  "refresh_run st evs = foldl refresh_step st evs"

definition refresh_init :: "config \<Rightarrow> rstate" where
  "refresh_init c = \<lparr>cfg = c, refreshInFlight = False, refreshQueued = False,
                      outstanding = [], issued = [], runs = 0\<rparr>"

section \<open>Confirmation gate\<close>

text \<open>
  Which of the elements \<^verbatim>\<open>confirmModal\<close>, \<^verbatim>\<open>confirmOverlay\<close>, \<^verbatim>\<open>confirmPanel\<close>,
  \<^verbatim>\<open>confirmTitle\<close> and \<^verbatim>\<open>confirmBody\<close> the page has.
\<close>

record surface =
  has_modal :: bool
  has_overlay :: bool
  has_panel :: bool
  has_title :: bool
  has_body :: bool

text \<open>
  A promise is the number \<^verbatim>\<open>confirmDialog\<close> gave it. \<open>confirmResolve\<close> is the promise
  whose \<^verbatim>\<open>resolve\<close> the variable \<^verbatim>\<open>_confirmResolve\<close> holds; \<open>confirmCloseTimer\<close> is the
  pending 200 ms timer of \<^verbatim>\<open>_closeConfirmModal\<close>, with the time it is due and the
  \<^verbatim>\<open>resultBool\<close> its callback captured; \<open>resolved\<close> lists the promises resolved so far,
  each with its value. The CSS classes, the focus timer and the animation frame change
  only the look and are left out.
\<close>

record cstate =
  confirmResolve :: "nat option"
  confirmCloseTimer :: "(nat \<times> bool) option"
  resolved :: "(nat \<times> bool) list"
  nextPromise :: nat
  modalHidden :: bool
  titleText :: string
  bodyText :: string

text \<open>\<^verbatim>\<open>if (_confirmResolve) _confirmResolve(Boolean(resultBool)); _confirmResolve = null;\<close>\<close>

definition resolve_pending :: "bool \<Rightarrow> cstate \<Rightarrow> cstate" where
  "resolve_pending resultBool st =
     (case confirmResolve st of
        Some p \<Rightarrow> st\<lparr>resolved := resolved st @ [(p, resultBool)], confirmResolve := None\<rparr>
      | None \<Rightarrow> st)"

text \<open>\<^verbatim>\<open>_openConfirmModal(title, body)\<close>.\<close>

definition openConfirmModal :: "surface \<Rightarrow> string \<Rightarrow> string \<Rightarrow> cstate \<Rightarrow> cstate" where
  "openConfirmModal sf t b st =
     (if \<not> has_modal sf \<or> \<not> has_overlay sf \<or> \<not> has_panel sf \<or> \<not> has_title sf \<or> \<not> has_body sf
      then st
      else st\<lparr>confirmCloseTimer := None,
              titleText := (if t = [] then ''Confirm'' else t),
              bodyText := b,
              modalHidden := False\<rparr>)"

text \<open>\<^verbatim>\<open>_closeConfirmModal(resultBool)\<close>, called at time \<open>now\<close>.\<close>

definition closeConfirmModal :: "surface \<Rightarrow> nat \<Rightarrow> bool \<Rightarrow> cstate \<Rightarrow> cstate" where
  "closeConfirmModal sf now resultBool st =
     (if \<not> has_modal sf \<or> \<not> has_overlay sf \<or> \<not> has_panel sf
      then resolve_pending resultBool st
      else st\<lparr>confirmCloseTimer := Some (now + 200, resultBool)\<rparr>)"

text \<open>The callback of that timer.\<close>

definition close_timer_callback :: "bool \<Rightarrow> cstate \<Rightarrow> cstate" where
  "close_timer_callback resultBool st =
     resolve_pending resultBool (st\<lparr>modalHidden := True, confirmCloseTimer := None\<rparr>)"

text \<open>The clock reaches \<open>now\<close>: a close timer due by then runs.\<close>

definition confirm_advance :: "nat \<Rightarrow> cstate \<Rightarrow> cstate" where
  "confirm_advance now st =
     (case confirmCloseTimer st of
        Some (due, resultBool) \<Rightarrow> if due \<le> now then close_timer_callback resultBool st else st
      | None \<Rightarrow> st)"

text \<open>
  \<^verbatim>\<open>confirmDialog({ title, message })\<close>, called at time \<open>now\<close>: the new promise, and the
  state after the executor has run.
\<close>

definition confirmDialog :: "surface \<Rightarrow> nat \<Rightarrow> string \<Rightarrow> string \<Rightarrow> cstate \<Rightarrow> nat \<times> cstate" where
  "confirmDialog sf now t message st0 =
     (let st = confirm_advance now st0;
          st1 = (if confirmResolve st \<noteq> None then closeConfirmModal sf now False st else st);
          p = nextPromise st1;
          st2 = st1\<lparr>confirmResolve := Some p, nextPromise := Suc p\<rparr>
      in (p, openConfirmModal sf t message st2))"

definition confirm_init :: cstate where
  "confirm_init = \<lparr>confirmResolve = None, confirmCloseTimer = None, resolved = [],
                    nextPromise = 0, modalHidden = True, titleText = [], bodyText = []\<rparr>"

definition full_surface :: surface where
  "full_surface = \<lparr>has_modal = True, has_overlay = True, has_panel = True,
                    has_title = True, has_body = True\<rparr>"

text \<open>
  A host for the concrete examples. It answers only what the examples ask:
  \<^verbatim>\<open>JSON.parse("5")\<close> is the number 5 and \<^verbatim>\<open>JSON.parse("[]")\<close> the empty array,
  \<^verbatim>\<open>Number("12")\<close> is 12 and \<^verbatim>\<open>String(12)\<close> is \<^verbatim>\<open>"12"\<close>, and
  \<^verbatim>\<open>decodeURIComponent\<close> leaves a string without a percent sign as it is and rejects a
  lone percent sign.
\<close>

definition example_host :: host where
  "example_host =
     \<lparr>numberToString = (\<lambda>n. if n = Fin 12 then ''12'' else ''NaN''),
      strNumericLiteral = (\<lambda>s. if s = ''12'' then Fin 12 else NaN),
      jsonParse = (\<lambda>s. if s = ''5'' then Some (JNum (Fin 5))
                        else if s = ''[]'' then Some (JArr []) else None),
      decodeURIComponent = (\<lambda>s. if CHR ''%'' \<in> set s then None else Some s)\<rparr>"

text \<open>
  The invariant of the controller: at most one fetch is outstanding, and a fetch is
  outstanding or a follow-up remembered only while a refresh is in flight.
\<close>

definition rinv :: "rstate \<Rightarrow> bool" where
  "rinv st \<longleftrightarrow> length (outstanding st) \<le> 1
              \<and> (outstanding st \<noteq> [] \<longrightarrow> refreshInFlight st)
              \<and> (refreshQueued st \<longrightarrow> refreshInFlight st)"

text \<open>Two configurations for the examples: one followed game, and none.\<close>

definition cfg_one :: config where
  "cfg_one = \<lparr>followedGameIds = [''33214''], cfg_filters = base_filters, ignoredIds = []\<rparr>"

definition cfg_none :: config where
  "cfg_none = \<lparr>followedGameIds = [], cfg_filters = base_filters, ignoredIds = []\<rparr>"

text \<open>A page without the \<^verbatim>\<open>confirmModal\<close> element, for the examples.\<close>

definition no_modal_surface :: surface where
  "no_modal_surface = \<lparr>has_modal = False, has_overlay = True, has_panel = True,
                        has_title = True, has_body = True\<rparr>"

section \<open>Cookies and boot\<close>

text \<open>\<^verbatim>\<open>String.prototype.split\<close> on a separator of one character.\<close>

fun split_on :: "char \<Rightarrow> string \<Rightarrow> string list" where
  "split_on c [] = [[]]"
| "split_on c (x # xs) =
     (if x = c then [] # split_on c xs
      else case split_on c xs of
             p # ps \<Rightarrow> (x # p) # ps
           | [] \<Rightarrow> [[x]])"

text \<open>
  The loop of \<^verbatim>\<open>getCookie\<close> over the trimmed parts of \<^verbatim>\<open>document.cookie\<close>: the first
  part that starts with \<^verbatim>\<open>name=\<close> is decoded, and \<^verbatim>\<open>decodeURIComponent\<close> may throw.
\<close>

fun first_cookie :: "host \<Rightarrow> string \<Rightarrow> string list \<Rightarrow> error + string option" where
  "first_cookie h name [] = Inr None"
| "first_cookie h name (p # ps) =
     (if take (length name + 1) p = name @ ''=''
      then (case decodeURIComponent h (drop (length name + 1) p) of
              None \<Rightarrow> Inl URIError
            | Some v \<Rightarrow> Inr (Some v))
      else first_cookie h name ps)"

text \<open>\<^verbatim>\<open>getCookie(name)\<close>, with \<^verbatim>\<open>document.cookie\<close> as an argument.\<close>

definition getCookie :: "host \<Rightarrow> string \<Rightarrow> string \<Rightarrow> error + string option" where
  "getCookie h cookie name = first_cookie h name (map trim (split_on CHR '';'' cookie))"

text \<open>\<^verbatim>\<open>getJsonCookie(name, fallback)\<close>: only \<^verbatim>\<open>JSON.parse\<close> is inside the \<^verbatim>\<open>try\<close>.\<close>

definition getJsonCookie :: "host \<Rightarrow> string \<Rightarrow> string \<Rightarrow> jsval \<Rightarrow> error + jsval" where
  "getJsonCookie h cookie name fallback =
     (case getCookie h cookie name of
        Inl e \<Rightarrow> Inl e
      | Inr None \<Rightarrow> Inr fallback
      | Inr (Some raw) \<Rightarrow>
          if raw = [] then Inr fallback
          else case jsonParse h raw of
                 Some v \<Rightarrow> Inr v
               | None \<Rightarrow> Inr fallback)"

text \<open>\<^verbatim>\<open>parseCsvParam(v)\<close> on the value of a URL parameter, \<open>None\<close> when it is absent.\<close>

definition parseCsvParam :: "string option \<Rightarrow> string list" where
  "parseCsvParam v =
     (case v of
        None \<Rightarrow> []
      | Some s \<Rightarrow> if s = [] then [] else filter (\<lambda>x. x \<noteq> []) (map trim (split_on CHR '','' s)))"

text \<open>
  \<^verbatim>\<open>x.map(String)\<close> on a parsed value: only an array has a \<^verbatim>\<open>map\<close> to call; on
  anything else the call throws a TypeError.
\<close>

definition map_String :: "host \<Rightarrow> jsval \<Rightarrow> error + string list" where
  "map_String h v =
     (case v of
        JArr xs \<Rightarrow> sequence (map (ToString h) xs)
      | _ \<Rightarrow> Inl TypeError)"

record boot_state =
  bt_followedGameIds :: "string list"
  bt_ignoredUsers :: "ignored_user list"
  bt_filters :: filters

text \<open>
  \<^verbatim>\<open>boot()\<close> up to the assignment of \<^verbatim>\<open>state.filters\<close>: the three cookies are read, then
  \<^verbatim>\<open>state.followedGameIds\<close>, \<^verbatim>\<open>state.ignoredUsers\<close> and \<^verbatim>\<open>state.filters\<close> are
  computed, in that order. \<open>games\<close> and \<open>ignored\<close> are the URL parameters of those names.
  The cookie writes, and the rendering and binding that follow, are not part of the
  model.
\<close>

definition boot :: "host \<Rightarrow> string \<Rightarrow> string option \<Rightarrow> string option \<Rightarrow> error + boot_state" where
  "boot h cookie games ignored =
     (let url_games = parseCsvParam games;
          url_ignored = parseCsvParam ignored
      in
        case getJsonCookie h cookie ''followed_games'' (JArr []) of Inl e \<Rightarrow> Inl e | Inr cookieGames \<Rightarrow>
        case getJsonCookie h cookie ''ignored_streamers'' (JArr []) of Inl e \<Rightarrow> Inl e | Inr cookieIgnored \<Rightarrow>
        case getJsonCookie h cookie ''stream_filters'' JNull of Inl e \<Rightarrow> Inl e | Inr cookieFilters \<Rightarrow>
        case (if url_games \<noteq> [] then Inr url_games else map_String h cookieGames) of
          Inl e \<Rightarrow> Inl e | Inr ids \<Rightarrow>
        case normalizeIgnored h (if url_ignored \<noteq> [] then JArr (map JStr url_ignored) else cookieIgnored) of
          Inl e \<Rightarrow> Inl e | Inr ign \<Rightarrow>
        case normalizeFilters h cookieFilters of
          Inl e \<Rightarrow> Inl e | Inr f \<Rightarrow>
            Inr \<lparr>bt_followedGameIds = unique ids, bt_ignoredUsers = ign, bt_filters = f\<rparr>)"

text \<open>
  A value in which no object has an own property named \<^verbatim>\<open>toString\<close>: converting such
  a value to a string or a number cannot throw.
\<close>

fun plain :: "jsval \<Rightarrow> bool" where
  "plain (JArr xs) = list_all plain xs"
| "plain (JObj kvs) = (''toString'' \<notin> set (map fst kvs) \<and> list_all (\<lambda>kv. plain (snd kv)) kvs)"
| "plain v = True"

section \<open>The rendered view\<close>

text \<open>
  The part of the document that the reconciliation reads and writes. A stream row is
  the element \<^verbatim>\<open>ensureStreamRow\<close> creates: its \<^verbatim>\<open>dataset.streamId\<close>, whether its
  \<^verbatim>\<open>dataset.exiting\<close> is \<^verbatim>\<open>"1"\<close>, and the stream it shows (\<^verbatim>\<open>row._streamData\<close>). A game
  card is the element \<^verbatim>\<open>ensureGameCard\<close> creates, with the rows of its
  \<^verbatim>\<open>[data-stream-list]\<close> in document order. An element is a mutable object: \<open>row_id\<close>
  and \<open>card_id\<close> are the identities of the objects, so that a timer or a \<^verbatim>\<open>Map\<close> that
  holds an element can find it again. Rows are numbered within their card (\<open>next_row\<close> is
  the next number), cards within the view. CSS classes, which only animate, are not part
  of the model.
\<close>

record row =
  row_id :: nat
  streamId :: string
  row_exiting :: bool
  streamData :: stream

record card =
  card_id :: nat
  gameId :: string
  card_exiting :: bool
  streamsRenderVersion :: nat
  gameName :: string
  liveCount :: nat
  emptyHidden :: bool
  rows :: "row list"
  next_row :: nat

text \<open>
  A child of \<^verbatim>\<open>#followedGames\<close>: a game card, or a placeholder (the "Loading" text), an
  element without \<^verbatim>\<open>data-game-id\<close>.
\<close>

datatype child = Placeholder | Card card

text \<open>
  The callbacks given to \<^verbatim>\<open>setTimeout\<close>: \<^verbatim>\<open>el.remove()\<close> of \<^verbatim>\<open>animateExitAndRemove\<close> for
  a row (a row never leaves the list of its card, so the timer names the card too) or
  for a card, and the second pass of \<^verbatim>\<open>updateGameStreams\<close>, which has captured the
  card, \<^verbatim>\<open>myVersion\<close> and \<^verbatim>\<open>streams\<close>.
\<close>

datatype timer =
    RemoveRow nat nat
  | RemoveCard nat
  | Reorder nat nat "stream list"

text \<open>The view: the children of the root, and the pending timers with their due times,
  in the order they were set.\<close>

record view =
  children :: "child list"
  timers :: "(nat \<times> timer) list"
  next_card :: nat

definition empty_view :: view where
  "empty_view = \<lparr>children = [], timers = [], next_card = 0\<rparr>"

fun cards_of :: "child list \<Rightarrow> card list" where
  "cards_of [] = []"
| "cards_of (Placeholder # chs) = cards_of chs"
| "cards_of (Card c # chs) = c # cards_of chs"

text \<open>Applying \<open>f\<close> to the card with identity \<open>cid\<close>, and detaching that card.\<close>

fun map_card :: "nat \<Rightarrow> (card \<Rightarrow> card) \<Rightarrow> child list \<Rightarrow> child list" where
  "map_card cid f [] = []"
| "map_card cid f (Placeholder # chs) = Placeholder # map_card cid f chs"
| "map_card cid f (Card c # chs) =
     (if card_id c = cid then Card (f c) else Card c) # map_card cid f chs"

fun remove_card :: "nat \<Rightarrow> child list \<Rightarrow> child list" where
  "remove_card cid [] = []"
| "remove_card cid (Placeholder # chs) = Placeholder # remove_card cid chs"
| "remove_card cid (Card c # chs) =
     (if card_id c = cid then remove_card cid chs else Card c # remove_card cid chs)"

section \<open>Reconciling the streams of a game\<close>

text \<open>The row that \<^verbatim>\<open>ensureStreamRow(null, stream)\<close> creates, with identity \<open>n\<close>.\<close>

definition new_row :: "nat \<Rightarrow> stream \<Rightarrow> row" where
  "new_row n s = \<lparr>row_id = n, streamId = stream_id s, row_exiting = False, streamData = s\<rparr>"

text \<open>
  \<^verbatim>\<open>existing.get(sid)\<close> for the \<^verbatim>\<open>Map\<close> filled from the rows \<open>ex\<close> in document order: a
  later row with the same id replaces an earlier one.
\<close>

definition existing_get :: "row list \<Rightarrow> string \<Rightarrow> row option" where
  "existing_get ex sid = find (\<lambda>r. streamId r = sid) (rev ex)"

text \<open>
  The first loop of \<^verbatim>\<open>updateGameStreams\<close>, over the entries of \<^verbatim>\<open>existing\<close> (its keys
  in order of first insertion): the identities of the rows to remove.
\<close>

definition removals_of :: "row list \<Rightarrow> string list \<Rightarrow> nat list" where
  "removals_of ex desired =
     concat (map (\<lambda>sid. case existing_get ex sid of
                           Some r \<Rightarrow> if sid \<in> set desired \<or> row_exiting r then [] else [row_id r]
                         | None \<Rightarrow> [])
                 (unique (map streamId ex)))"

text \<open>
  The second loop: a stream whose id \<^verbatim>\<open>existing\<close> knows updates that row in place; any
  other stream gets a new row, appended to the list. \<^verbatim>\<open>existing\<close> is not updated.
\<close>

fun enter_rows :: "row list \<Rightarrow> stream list \<Rightarrow> row list \<times> nat \<Rightarrow> row list \<times> nat" where
  "enter_rows ex [] (rs, n) = (rs, n)"
| "enter_rows ex (s # ss) (rs, n) =
     (case existing_get ex (stream_id s) of
        Some prev \<Rightarrow>
          enter_rows ex ss
            (map (\<lambda>r. if row_id r = row_id prev then r\<lparr>streamData := s\<rparr> else r) rs, n)
      | None \<Rightarrow> enter_rows ex ss (rs @ [new_row n s], Suc n))"

text \<open>
  \<^verbatim>\<open>animateExitAndRemove(el)\<close> for the row \<open>rid\<close> of card \<open>cid\<close>: nothing if it is
  already exiting; else it is marked and its removal is set 280 ms ahead.
\<close>

definition animateExitAndRemove_row ::
    "nat \<Rightarrow> nat \<Rightarrow> row list \<times> (nat \<times> timer) list \<Rightarrow> nat \<Rightarrow> row list \<times> (nat \<times> timer) list" where
  "animateExitAndRemove_row now cid acc rid =
     (case find (\<lambda>r. row_id r = rid) (fst acc) of
        None \<Rightarrow> acc
      | Some r \<Rightarrow>
          if row_exiting r then acc
          else (map (\<lambda>x. if row_id x = rid then x\<lparr>row_exiting := True\<rparr> else x) (fst acc),
                snd acc @ [(now + 280, RemoveRow cid rid)]))"

text \<open>
  The loop that rebuilds the list in payload order when nothing was removed. The row
  for a stream is \<^verbatim>\<open>existing.get(sid) || list.querySelector(...)\<close>, the query finding
  the first row with that id still in the list; without one, \<^verbatim>\<open>ensureStreamRow\<close>
  creates a row. \<^verbatim>\<open>fragment.appendChild(row)\<close> takes the row out of the list (or out of
  its place in the fragment) and puts it at the end of the fragment. \<open>lst\<close> is the list,
  \<open>frag\<close> the fragment. Since this branch marks no row, the row \<^verbatim>\<open>existing\<close> holds
  differs from what the map recorded at most in the stream it shows, which is
  overwritten.
\<close>

fun reorder_now :: "row list \<Rightarrow> stream list \<Rightarrow> row list \<times> row list \<times> nat \<Rightarrow> row list \<times> row list \<times> nat" where
  "reorder_now ex [] st = st"
| "reorder_now ex (s # ss) (lst, frag, n) =
     (case (case existing_get ex (stream_id s) of
              Some p \<Rightarrow> Some p
            | None \<Rightarrow> find (\<lambda>r. streamId r = stream_id s) lst) of
        Some prev \<Rightarrow>
          reorder_now ex ss
            (filter (\<lambda>r. row_id r \<noteq> row_id prev) lst,
             filter (\<lambda>r. row_id r \<noteq> row_id prev) frag @ [prev\<lparr>streamData := s\<rparr>],
             n)
      | None \<Rightarrow> reorder_now ex ss (lst, frag @ [new_row n s], Suc n))"

text \<open>The same loop in the deferred pass, where the row is the query alone.\<close>

fun rebuild :: "stream list \<Rightarrow> row list \<times> row list \<times> nat \<Rightarrow> row list \<times> row list \<times> nat" where
  "rebuild [] st = st"
| "rebuild (s # ss) (lst, frag, n) =
     (case find (\<lambda>r. streamId r = stream_id s) lst of
        Some prev \<Rightarrow>
          rebuild ss
            (filter (\<lambda>r. row_id r \<noteq> row_id prev) lst, frag @ [prev\<lparr>streamData := s\<rparr>], n)
      | None \<Rightarrow> rebuild ss (lst, frag @ [new_row n s], Suc n))"

text \<open>
  The body of the deferred callback once the version check has passed: rows that are
  neither exiting nor in \<open>latest\<close> are removed, then the list is rebuilt.
\<close>

definition deferred_pass :: "stream list \<Rightarrow> card \<Rightarrow> card" where
  "deferred_pass latest c =
     (let l1 = filter (\<lambda>r. row_exiting r \<or> streamId r \<in> set (map stream_id latest)) (rows c);
          (lst, frag, n) = rebuild latest (l1, [], next_row c)
      in c\<lparr>rows := lst @ frag, next_row := n\<rparr>)"

text \<open>
  \<^verbatim>\<open>updateGameStreams(card, streams)\<close> at time \<open>now\<close>: the card afterwards and the
  timers it has set.
\<close>

definition updateGameStreams :: "nat \<Rightarrow> card \<Rightarrow> stream list \<Rightarrow> card \<times> (nat \<times> timer) list" where
  "updateGameStreams now c arr =
     (let myVersion = Suc (streamsRenderVersion c);
          ex = rows c;
          removals = removals_of ex (map stream_id arr);
          (rs1, n1) = enter_rows ex arr (rows c, next_row c);
          (rs2, ts) = foldl (animateExitAndRemove_row now (card_id c)) (rs1, []) removals;
          c1 = c\<lparr>emptyHidden := (arr \<noteq> []), streamsRenderVersion := myVersion\<rparr>
      in if removals \<noteq> []
         then (c1\<lparr>rows := rs2, next_row := n1\<rparr>,
               ts @ [(now + 320, Reorder (card_id c) myVersion arr)])
         else
           let (lst, frag, n2) = reorder_now ex arr (rs2, [], n1)
           in (c1\<lparr>rows := lst @ frag, next_row := n2\<rparr>, ts))"

section \<open>Reconciling the games\<close>

text \<open>
  \<^verbatim>\<open>ensureGameCard\<close>: the header of an existing card is updated; a new card gets the
  identity \<open>n\<close>, an empty list and the empty-list notice hidden.
\<close>

definition update_header :: "game_group \<Rightarrow> card \<Rightarrow> card" where
  "update_header g c =
     c\<lparr>gameName := (if game_name g = [] then game_id g else game_name g),
       liveCount := length (streams g)\<rparr>"

definition new_card :: "nat \<Rightarrow> game_group \<Rightarrow> card" where
  "new_card n g =
     update_header g
       \<lparr>card_id = n, gameId = game_id g, card_exiting = False, streamsRenderVersion = 0,
        gameName = [], liveCount = 0, emptyHidden = True, rows = [], next_row = 0\<rparr>"

text \<open>
  The \<^verbatim>\<open>Map\<close> \<^verbatim>\<open>existingCards\<close> as a list of its entries: the keys in order of first
  insertion, each with the last card of that id.
\<close>

definition existingCards_of :: "card list \<Rightarrow> (string \<times> card) list" where
  "existingCards_of cs =
     concat (map (\<lambda>gid. case find (\<lambda>c. gameId c = gid) (rev cs) of
                           Some c \<Rightarrow> [(gid, c)]
                         | None \<Rightarrow> [])
                 (unique (map gameId cs)))"

text \<open>
  The loop of \<^verbatim>\<open>renderFollowedGames\<close> over \<^verbatim>\<open>payload.games\<close>. A card is changed only
  in the iteration that also deletes it from \<^verbatim>\<open>existingCards\<close>, so the card the map
  holds is the card as it is. \<^verbatim>\<open>root.appendChild(card)\<close> moves the card to the end.
\<close>

fun render_games ::
    "nat \<Rightarrow> game_group list \<Rightarrow> child list \<times> (string \<times> card) list \<times> (nat \<times> timer) list \<times> nat
       \<Rightarrow> child list \<times> (string \<times> card) list \<times> (nat \<times> timer) list \<times> nat" where
  "render_games now [] st = st"
| "render_games now (g # gs) (chs, ex, ts, n) =
     (let (c0, n') = (case map_of ex (game_id g) of
                        Some prev \<Rightarrow> (update_header g prev, n)
                      | None \<Rightarrow> (new_card n g, Suc n));
          (c1, ts1) = updateGameStreams now c0 (streams g)
      in render_games now gs
           (remove_card (card_id c0) chs @ [Card c1],
            filter (\<lambda>kv. fst kv \<noteq> game_id g) ex,
            ts @ ts1,
            n'))"

text \<open>\<^verbatim>\<open>animateExitAndRemove(card)\<close> for a card left in \<^verbatim>\<open>existingCards\<close>.\<close>

definition animateExitAndRemove_card ::
    "nat \<Rightarrow> child list \<times> (nat \<times> timer) list \<Rightarrow> card \<Rightarrow> child list \<times> (nat \<times> timer) list" where
  "animateExitAndRemove_card now acc c =
     (if card_exiting c then acc
      else (map_card (card_id c) (\<lambda>x. x\<lparr>card_exiting := True\<rparr>) (fst acc),
            snd acc @ [(now + 280, RemoveCard (card_id c))]))"

text \<open>
  \<^verbatim>\<open>renderFollowedGames()\<close> at time \<open>now\<close> with \<^verbatim>\<open>state.lastStreamsPayload\<close> as an
  argument, up to the loop over the cards left; the calls of the layout balancer that
  end it act on the column count alone (\<open>layout_after_render\<close>). A child counts as a
  placeholder when its \<^verbatim>\<open>dataset.gameId\<close> is missing or empty.
\<close>

definition renderFollowedGames :: "nat \<Rightarrow> view \<Rightarrow> payload option \<Rightarrow> view" where
  "renderFollowedGames now v payload =
     (case payload of
        None \<Rightarrow> v\<lparr>children := [Placeholder]\<rparr>
      | Some games \<Rightarrow>
          let chs0 = filter (\<lambda>ch. case ch of Placeholder \<Rightarrow> False | Card c \<Rightarrow> gameId c \<noteq> [])
                            (children v);
              (chs1, ex1, ts1, n1) =
                 render_games now games (chs0, existingCards_of (cards_of chs0), timers v, next_card v);
              (chs2, ts2) = foldl (animateExitAndRemove_card now) (chs1, ts1) (map snd ex1)
          in v\<lparr>children := chs2, timers := ts2, next_card := n1\<rparr>)"

section \<open>Timers\<close>

text \<open>Running a callback.\<close>

fun fire :: "view \<Rightarrow> timer \<Rightarrow> view" where
  "fire v (RemoveRow cid rid) =
     v\<lparr>children := map_card cid (\<lambda>c. c\<lparr>rows := filter (\<lambda>r. row_id r \<noteq> rid) (rows c)\<rparr>) (children v)\<rparr>"
| "fire v (RemoveCard cid) = v\<lparr>children := remove_card cid (children v)\<rparr>"
| "fire v (Reorder cid ver latest) =
     v\<lparr>children := map_card cid
          (\<lambda>c. if streamsRenderVersion c \<noteq> ver then c else deferred_pass latest c) (children v)\<rparr>"

text \<open>
  The clock reaches \<open>t\<close>: the timers due by then run, earliest first, timers due at the
  same time in the order they were set (the sort is stable). No callback sets a timer.
\<close>

definition advance :: "nat \<Rightarrow> view \<Rightarrow> view" where
  "advance t v =
     foldl fire (v\<lparr>timers := filter (\<lambda>dt. t < fst dt) (timers v)\<rparr>)
           (map snd (sort_key fst (filter (\<lambda>dt. fst dt \<le> t) (timers v))))"

text \<open>Every pending timer has run: the view has settled.\<close>

definition settle :: "view \<Rightarrow> view" where
  "settle v = foldl fire (v\<lparr>timers := []\<rparr>) (map snd (sort_key fst (timers v)))"

text \<open>A payload arrives at time \<open>t\<close>.\<close>

definition render_at :: "nat \<Rightarrow> payload \<Rightarrow> view \<Rightarrow> view" where
  "render_at t p v = renderFollowedGames t (advance t v) (Some p)"

text \<open>The rendered nodes of a stream id within the game \<open>gid\<close>, and of a game id.\<close>

definition stream_nodes :: "view \<Rightarrow> string \<Rightarrow> string \<Rightarrow> row list" where
  "stream_nodes v gid sid =
     concat (map (\<lambda>c. if gameId c = gid then filter (\<lambda>r. streamId r = sid) (rows c) else [])
                 (cards_of (children v)))"

definition game_nodes :: "view \<Rightarrow> string \<Rightarrow> card list" where
  "game_nodes v gid = filter (\<lambda>c. gameId c = gid) (cards_of (children v))"

text \<open>Payloads for the examples: a stream and a game group that carry the given ids.\<close>

definition example_stream :: "string \<Rightarrow> stream" where
  "example_stream s =
     \<lparr>stream_id = s, user_id = ''u'' @ s, user_name = Some s, viewer_count = 1, title = ''t''\<rparr>"

definition example_group :: "string \<Rightarrow> string list \<Rightarrow> game_group" where
  "example_group g ss = \<lparr>game_id = g, game_name = g, streams = map example_stream ss\<rparr>"

section \<open>Convergence of the view\<close>

text \<open>What identifies a row node and its state, apart from the stream it shows.\<close>

definition node :: "row \<Rightarrow> nat \<times> string \<times> bool" where
  "node r = (row_id r, streamId r, row_exiting r)"

definition live :: "row list \<Rightarrow> row list" where
  "live rs = filter (\<lambda>r. \<not> row_exiting r) rs"




text \<open>What a callback does to a card.\<close>

definition fire_card :: "timer \<Rightarrow> card \<Rightarrow> card" where
  "fire_card t c =
     (case t of
        RemoveRow cid rid \<Rightarrow>
          if card_id c = cid then c\<lparr>rows := filter (\<lambda>r. row_id r \<noteq> rid) (rows c)\<rparr> else c
      | RemoveCard cid \<Rightarrow> c
      | Reorder cid ver latest \<Rightarrow>
          if card_id c = cid \<and> streamsRenderVersion c = ver then deferred_pass latest c else c)"




text \<open>
  A payload as the reconciliation takes it: no game is listed twice, and within a game
  no stream is listed twice.
\<close>

definition well_formed :: "payload \<Rightarrow> bool" where
  "well_formed games \<longleftrightarrow>
     distinct (map game_id games) \<and> (\<forall>g\<in>set games. distinct (map stream_id (streams g)))"

text \<open>
  A payload that brings back no node on its way out of the view \<open>v\<close>: it names no game
  whose card is exiting and, in a game, no stream whose row is exiting.
\<close>

definition no_revival :: "view \<Rightarrow> payload \<Rightarrow> bool" where
  "no_revival v games \<longleftrightarrow>
     (\<forall>g\<in>set games. \<forall>c\<in>set (cards_of (children v)). gameId c = game_id g \<longrightarrow>
        \<not> card_exiting c
        \<and> (\<forall>r\<in>set (rows c). row_exiting r \<longrightarrow> streamId r \<notin> set (map stream_id (streams g))))"

text \<open>
  A session: the payloads in the order they arrive, each with its time of arrival. A
  session is admissible when every payload is well formed and, at the moment it arrives
  (the callbacks due by then have run), brings back no node on its way out.
\<close>

fun run :: "view \<Rightarrow> (nat \<times> payload) list \<Rightarrow> view" where
  "run v [] = v"
| "run v (tp # ps) = run (render_at (fst tp) (snd tp) v) ps"

fun admissible :: "view \<Rightarrow> (nat \<times> payload) list \<Rightarrow> bool" where
  "admissible v [] = True"
| "admissible v (tp # ps) =
     (well_formed (snd tp) \<and> no_revival (advance (fst tp) v) (snd tp)
      \<and> admissible (render_at (fst tp) (snd tp) v) ps)"

section \<open>Properties of the layout balancer\<close>

lemma fit_of_pos: "1 \<le> fit_of w"
  by (simp add: fit_of_def)

lemma updateMasonryColumns_bound:
  assumes "scope ''Ratelimit''" and "scope ''Reset''"
  shows "updateMasonryColumns scope (Some r) n =
           Inr (Some (r\<lparr>columnCount := Some (max 1 (min (fit_of (clientWidth r)) (max 1 n)))\<rparr>))"
proof -
  have "max (1::int) (max 0 n) = max 1 n" by simp
  then show ?thesis
    using assms by (simp add: updateMasonryColumns_def Let_def)
qed

lemma clamp_columnCount_le:
  assumes "columnCount r = Some c" and "1 \<le> c"
  shows "\<exists>r'. clampMasonryToUsedColumns (Some r) ls = Some r'
              \<and> clientWidth r' = clientWidth r
              \<and> (\<exists>c'. columnCount r' = Some c' \<and> 1 \<le> c' \<and> c' \<le> c
                     \<and> (ls \<noteq> [] \<longrightarrow> c' \<le> int (length (remdups ls))))"
proof (cases "ls = []")
  case True
  then show ?thesis using assms by (simp add: clampMasonryToUsedColumns_def)
next
  case False
  then have "remdups ls \<noteq> []"
    by simp
  then have "1 \<le> length (remdups ls)"
    by (cases "remdups ls") simp_all
  then show ?thesis
    using assms False by (auto simp: clampMasonryToUsedColumns_def Let_def max_def)
qed

text \<open>
  C8 at the failing input. \<^verbatim>\<open>app.js\<close> declares neither \<^verbatim>\<open>Ratelimit\<close> nor \<^verbatim>\<open>Reset\<close>.
  In a scope that leaves one of them unbound, and with the element \<^verbatim>\<open>#followedGames\<close>
  present, \<^verbatim>\<open>updateMasonryColumns\<close> throws a ReferenceError at its third statement
  for every width and every card count: no column count is applied, and the tail of
  \<^verbatim>\<open>renderFollowedGames\<close> ends with that exception before a settle frame is requested.
\<close>

theorem layout_balancer_throws:
  assumes "\<not> scope ''Ratelimit'' \<or> \<not> scope ''Reset''"
  shows "updateMasonryColumns scope (Some r) n = Inl ReferenceError
         \<and> layout_after_render scope (Some r) n l1 l2 = Inl ReferenceError"
  using assms by (auto simp: updateMasonryColumns_def layout_after_render_def)

theorem layout_balancer_throws_witness:
  "updateMasonryColumns (\<lambda>_. False) (Some \<lparr>clientWidth = 1000, columnCount = None\<rparr>) 5
     = Inl ReferenceError
   \<and> layout_after_render (\<lambda>_. False) (Some \<lparr>clientWidth = 1000, columnCount = None\<rparr>) 5
       [0, 336, 672, 0, 336] [0, 336, 0, 336, 0] = Inl ReferenceError"
  using layout_balancer_throws [of "\<lambda>_. False" "\<lparr>clientWidth = 1000, columnCount = None\<rparr>" 5
      "[0, 336, 672, 0, 336]" "[0, 336, 0, 336, 0]"]
  by simp

text \<open>
  The rest of the body, which runs only in a scope that binds both identifiers: the
  column count it would apply is \<open>max 1 (min fit (max 1 n))\<close> with
  \<open>fit = max 1 (floor ((W + G) / (Cw + G)))\<close>, and a settle frame that measures at
  least one card would leave a count between 1 and the number of distinct offsets it
  measured.
\<close>

lemma layout_columns_bound:
  assumes "scope ''Ratelimit''" and "scope ''Reset''"
  shows "\<exists>r1 c. updateMasonryColumns scope (Some r) n = Inr (Some r1)
           \<and> columnCount r1 = Some c
           \<and> c = max 1 (min (fit_of (clientWidth r)) (max 1 n))
           \<and> 1 \<le> c \<and> c \<le> min (fit_of (clientWidth r)) (max 1 n)
           \<and> (\<forall>l1 l2. l2 \<noteq> [] \<longrightarrow>
                (\<exists>r2 c2. layout_after_render scope (Some r) n l1 l2 = Inr (Some r2)
                      \<and> columnCount r2 = Some c2
                      \<and> 1 \<le> c2 \<and> c2 \<le> c \<and> c2 \<le> int (length (remdups l2))))"
proof -
  define c where "c = max 1 (min (fit_of (clientWidth r)) (max 1 n))"
  define r1 where "r1 = r\<lparr>columnCount := Some c\<rparr>"
  have upd: "updateMasonryColumns scope (Some r) n = Inr (Some r1)"
    unfolding c_def r1_def by (rule updateMasonryColumns_bound [OF assms])
  have cc: "columnCount r1 = Some c" by (simp add: r1_def)
  have c1: "1 \<le> c" by (simp add: c_def)
  have c2: "c \<le> min (fit_of (clientWidth r)) (max 1 n)"
    using fit_of_pos [of "clientWidth r"] by (simp add: c_def)
  have frames: "\<exists>r2 c2. layout_after_render scope (Some r) n l1 l2 = Inr (Some r2)
                      \<and> columnCount r2 = Some c2
                      \<and> 1 \<le> c2 \<and> c2 \<le> c \<and> c2 \<le> int (length (remdups l2))"
    if ne: "l2 \<noteq> []" for l1 l2
  proof -
    from clamp_columnCount_le [OF cc c1, of l1]
    obtain ra a where a: "clampMasonryToUsedColumns (Some r1) l1 = Some ra"
      and cca: "columnCount ra = Some a" and a_pos: "1 \<le> a" and a_le: "a \<le> c"
      by blast
    from clamp_columnCount_le [OF cca a_pos, of l2]
    obtain rb b where b: "clampMasonryToUsedColumns (Some ra) l2 = Some rb"
      and ccb: "columnCount rb = Some b" and b_pos: "1 \<le> b" and b_le: "b \<le> a"
      and b_used: "l2 \<noteq> [] \<longrightarrow> b \<le> int (length (remdups l2))"
      by blast
    have "layout_after_render scope (Some r) n l1 l2 = Inr (Some rb)"
      by (simp add: layout_after_render_def upd a b)
    then show ?thesis
      using ccb b_pos b_le a_le b_used ne by auto
  qed
  show ?thesis
    using upd cc c1 c2 frames c_def by blast
qed

text \<open>
  With no card (\<open>n = 0\<close>) that rest of the body would apply one column, where the
  interval from 1 to \<open>min fit n\<close> is empty.
\<close>

lemma layout_columns_no_cards:
  "updateMasonryColumns (\<lambda>_. True) (Some \<lparr>clientWidth = 1000, columnCount = None\<rparr>) 0
     = Inr (Some \<lparr>clientWidth = 1000, columnCount = Some 1\<rparr>)
   \<and> \<not> (1 \<le> min (fit_of 1000) (0::int))"
  by (simp add: updateMasonryColumns_def fit_of_def MASONRY_COL_GAP_def MASONRY_COL_WIDTH_def Let_def)

section \<open>Properties of numeric filter parsing\<close>

lemma trunc_towards_zero:
  "\<bar>of_int (trunc q)\<bar> \<le> \<bar>q\<bar> \<and> \<bar>q - of_int (trunc q)\<bar> < 1
   \<and> (0 \<le> q \<longrightarrow> 0 \<le> trunc q) \<and> (q \<le> 0 \<longrightarrow> trunc q \<le> 0)"
proof (cases "0 \<le> q")
  case True
  define k where "k = \<lfloor>q\<rfloor>"
  define r :: rat where "r = of_int k"
  have t: "trunc q = k" using True by (simp add: trunc_def k_def)
  have f0: "0 \<le> k" using True by (simp add: k_def)
  have f1: "r \<le> q" by (simp add: k_def r_def)
  have f2: "q < r + 1" unfolding k_def r_def by linarith
  have f4: "0 \<le> r" using f0 by (simp add: r_def)
  have a: "\<bar>r\<bar> \<le> \<bar>q\<bar>" using f1 f4 True by linarith
  have b: "\<bar>q - r\<bar> < 1" using f1 f2 by linarith
  have c: "q \<le> 0 \<longrightarrow> k \<le> 0" using True by (auto simp: k_def)
  show ?thesis using a b c f0 by (simp add: t r_def)
next
  case False
  define k where "k = \<lceil>q\<rceil>"
  define r :: rat where "r = of_int k"
  have t: "trunc q = k" using False by (simp add: trunc_def k_def)
  have f0: "k \<le> 0" using False by (simp add: ceiling_le_iff k_def)
  have f1: "q \<le> r" by (simp add: k_def r_def)
  have f2: "r < q + 1" unfolding k_def r_def by linarith
  have f4: "r \<le> 0" using f0 by (simp add: r_def)
  have a: "\<bar>r\<bar> \<le> \<bar>q\<bar>" using f1 f4 False by linarith
  have b: "\<bar>q - r\<bar> < 1" using f1 f2 by linarith
  show ?thesis using a b f0 False by (simp add: t r_def)
qed

lemma StringToNumber_blank: "trim s = [] \<Longrightarrow> StringToNumber h s = Fin 0"
  by (simp add: StringToNumber_def)

lemma trunc_zero_iff: "trunc q = 0 \<longleftrightarrow> - 1 < q \<and> q < 1"
  by (auto simp: trunc_def floor_eq_iff ceiling_eq_iff)

text \<open>
  C6, as the code has it. \<^verbatim>\<open>clampInt(x)\<close> is \<^verbatim>\<open>null\<close> exactly when \<open>x\<close> is the empty
  string, \<^verbatim>\<open>null\<close> or \<^verbatim>\<open>undefined\<close>, or \<^verbatim>\<open>Number(x)\<close> is not finite; when
  \<^verbatim>\<open>Number(x)\<close> is finite the result is that number rounded towards zero; it throws
  exactly when \<^verbatim>\<open>Number(x)\<close> does. The result is zero exactly for the inputs that
  \<^verbatim>\<open>Number\<close> takes strictly between -1 and 1, among them every non-empty string of
  white space and \<^verbatim>\<open>false\<close>.
\<close>

theorem clampInt_unset_or_truncated:
  "(clampInt h x = Inr None \<longleftrightarrow>
      x = JStr [] \<or> x = JNull \<or> x = JUndefined
      \<or> ToNumber h x = Inr NaN \<or> ToNumber h x = Inr PosInf \<or> ToNumber h x = Inr NegInf)
   \<and> (\<forall>q. x \<noteq> JStr [] \<and> x \<noteq> JNull \<and> x \<noteq> JUndefined \<and> ToNumber h x = Inr (Fin q) \<longrightarrow>
          clampInt h x = Inr (Some (trunc q))
          \<and> \<bar>of_int (trunc q)\<bar> \<le> \<bar>q\<bar> \<and> \<bar>q - of_int (trunc q)\<bar> < 1)
   \<and> (\<forall>e. clampInt h x = Inl e \<longleftrightarrow>
          x \<noteq> JStr [] \<and> x \<noteq> JNull \<and> x \<noteq> JUndefined \<and> ToNumber h x = Inl e)
   \<and> (clampInt h x = Inr (Some 0) \<longleftrightarrow>
          x \<noteq> JStr [] \<and> x \<noteq> JNull \<and> x \<noteq> JUndefined
          \<and> (\<exists>q. ToNumber h x = Inr (Fin q) \<and> - 1 < q \<and> q < 1))
   \<and> (\<forall>s. s \<noteq> [] \<and> trim s = [] \<longrightarrow> clampInt h (JStr s) = Inr (Some 0))
   \<and> clampInt h (JBool False) = Inr (Some 0)"
proof -
  have a: "clampInt h x = Inr None \<longleftrightarrow>
      x = JStr [] \<or> x = JNull \<or> x = JUndefined
      \<or> ToNumber h x = Inr NaN \<or> ToNumber h x = Inr PosInf \<or> ToNumber h x = Inr NegInf"
    by (auto simp: clampInt_def split: sum.splits jsnum.splits)
  have b: "clampInt h x = Inr (Some (trunc q))
          \<and> \<bar>of_int (trunc q)\<bar> \<le> \<bar>q\<bar> \<and> \<bar>q - of_int (trunc q)\<bar> < 1"
    if "x \<noteq> JStr [] \<and> x \<noteq> JNull \<and> x \<noteq> JUndefined \<and> ToNumber h x = Inr (Fin q)" for q
    using that trunc_towards_zero [of q] by (simp add: clampInt_def)
  have c: "clampInt h x = Inl e \<longleftrightarrow>
          x \<noteq> JStr [] \<and> x \<noteq> JNull \<and> x \<noteq> JUndefined \<and> ToNumber h x = Inl e" for e
    by (auto simp: clampInt_def split: sum.splits jsnum.splits)
  have d: "clampInt h x = Inr (Some 0) \<longleftrightarrow>
          x \<noteq> JStr [] \<and> x \<noteq> JNull \<and> x \<noteq> JUndefined
          \<and> (\<exists>q. ToNumber h x = Inr (Fin q) \<and> - 1 < q \<and> q < 1)"
    by (auto simp: clampInt_def trunc_zero_iff split: sum.splits jsnum.splits)
  have e: "clampInt h (JStr s) = Inr (Some 0)" if "s \<noteq> [] \<and> trim s = []" for s
    using that by (simp add: clampInt_def StringToNumber_blank trunc_def)
  have f: "clampInt h (JBool False) = Inr (Some 0)"
    by (simp add: clampInt_def trunc_def)
  show ?thesis
    using a b c d e f by blast
qed

theorem clampInt_unset_or_truncated_witness:
  "clampInt example_host (JNum (Fin (- 7 / 2))) = Inr (Some (- 3))
   \<and> clampInt example_host (JStr ''12'') = Inr (Some 12)"
proof -
  have n: "JNum (Fin (- 7 / 2)) \<noteq> JStr [] \<and> JNum (Fin (- 7 / 2)) \<noteq> JNull
           \<and> JNum (Fin (- 7 / 2)) \<noteq> JUndefined
           \<and> ToNumber example_host (JNum (Fin (- 7 / 2))) = Inr (Fin (- 7 / 2))"
    by simp
  have t1: "trunc (- 7 / 2) = - 3"
    by (simp add: trunc_def ceiling_eq_iff)
  have s: "JStr ''12'' \<noteq> JStr [] \<and> JStr ''12'' \<noteq> JNull \<and> JStr ''12'' \<noteq> JUndefined
           \<and> ToNumber example_host (JStr ''12'') = Inr (Fin 12)"
    by (simp add: StringToNumber_def trim_def is_space_def example_host_def)
  have t2: "trunc 12 = 12"
    by (simp add: trunc_def)
  show ?thesis
    using clampInt_unset_or_truncated [of example_host "JNum (Fin (- 7 / 2))"] n t1
      clampInt_unset_or_truncated [of example_host "JStr ''12''"] s t2
    by (metis (no_types, lifting))
qed

text \<open>
  C6 as stated fails: a string of two spaces is an empty input, and the boolean
  \<^verbatim>\<open>false\<close> an invalid one, and both normalize to zero, not to unset.
\<close>

theorem clampInt_blank_counterexample:
  "clampInt example_host (JStr ''  '') = Inr (Some 0)
   \<and> clampInt example_host (JBool False) = Inr (Some 0)"
  by (simp add: clampInt_def StringToNumber_def trim_def is_space_def trunc_def)

section \<open>Properties of the ignored-user list\<close>

lemma uid_fill_name [simp]: "uid (fill_name sid sname e) = uid e"
  by (simp add: fill_name_def)

lemma fill_name_named [simp]: "has_name (uname e) \<Longrightarrow> fill_name sid sname e = e"
  by (simp add: fill_name_def)

lemma fill_name_not_cleared: "uname e \<noteq> None \<Longrightarrow> uname (fill_name sid sname e) \<noteq> None"
  by (auto simp: fill_name_def has_name_def)

lemma fill_name_fills: "uid e = sid \<Longrightarrow> has_name sname \<Longrightarrow> has_name (uname (fill_name sid sname e))"
  by (simp add: fill_name_def)

lemma map_uid_fill_name [simp]: "map uid (map (fill_name sid sname) m) = map uid m"
  by (induction m) simp_all

lemma merge_ignored_ids: "set (map uid (merge_ignored m u)) = insert (uid u) (set (map uid m))"
proof (cases "uid u \<in> set (map uid m)")
  case True
  then have "merge_ignored m u = map (fill_name (uid u) (uname u)) m"
    by (simp add: merge_ignored_def)
  then show ?thesis using True by (simp only: map_uid_fill_name) auto
next
  case False
  then show ?thesis by (simp add: merge_ignored_def)
qed

lemma merge_ignored_distinct: "distinct (map uid m) \<Longrightarrow> distinct (map uid (merge_ignored m u))"
proof (cases "uid u \<in> set (map uid m)")
  case True
  assume d: "distinct (map uid m)"
  from True have "merge_ignored m u = map (fill_name (uid u) (uname u)) m"
    by (simp add: merge_ignored_def)
  then show ?thesis using d by (simp only: map_uid_fill_name)
next
  case False
  assume "distinct (map uid m)"
  then show ?thesis using False by (simp add: merge_ignored_def)
qed

lemma foldl_merge_distinct:
  "distinct (map uid m) \<Longrightarrow> distinct (map uid (foldl merge_ignored m xs))"
  by (induction xs arbitrary: m) (simp_all add: merge_ignored_distinct)

lemma foldl_merge_ids:
  "set (map uid (foldl merge_ignored m xs)) = set (map uid m) \<union> set (map uid xs)"
proof (induction xs arbitrary: m)
  case Nil
  then show ?case by simp
next
  case (Cons x xs)
  have "set (map uid (foldl merge_ignored (merge_ignored m x) xs))
          = set (map uid (merge_ignored m x)) \<union> set (map uid xs)"
    by (rule Cons.IH)
  then show ?case by (simp only: foldl_Cons merge_ignored_ids) auto
qed

text \<open>An entry with a name keeps it through a merge step; an entry never loses its name.\<close>

lemma merge_ignored_keeps:
  assumes "e \<in> set m"
  shows "\<exists>e' \<in> set (merge_ignored m u). uid e' = uid e
            \<and> (has_name (uname e) \<longrightarrow> e' = e)
            \<and> (uname e \<noteq> None \<longrightarrow> uname e' \<noteq> None)"
proof (cases "uid u \<in> set (map uid m)")
  case False
  then show ?thesis using assms by (auto simp: merge_ignored_def)
next
  case True
  have "fill_name (uid u) (uname u) e \<in> set (merge_ignored m u)"
    using True assms by (simp add: merge_ignored_def)
  then show ?thesis
    using fill_name_not_cleared [of e "uid u" "uname u"]
    by (intro bexI [of _ "fill_name (uid u) (uname u) e"]) simp_all
qed

lemma merge_ignored_new:
  "\<exists>e' \<in> set (merge_ignored m u). uid e' = uid u \<and> (has_name (uname u) \<longrightarrow> has_name (uname e'))"
proof (cases "uid u \<in> set (map uid m)")
  case False
  then show ?thesis by (auto simp: merge_ignored_def)
next
  case True
  then obtain e where e: "e \<in> set m" "uid e = uid u" by auto
  have "fill_name (uid u) (uname u) e \<in> set (merge_ignored m u)"
    using True e by (simp add: merge_ignored_def)
  then show ?thesis
    using e fill_name_fills [of e "uid u" "uname u"]
    by (intro bexI [of _ "fill_name (uid u) (uname u) e"]) simp_all
qed

lemma foldl_merge_keeps:
  assumes "e \<in> set m"
  shows "\<exists>e' \<in> set (foldl merge_ignored m xs). uid e' = uid e
            \<and> (has_name (uname e) \<longrightarrow> e' = e)
            \<and> (uname e \<noteq> None \<longrightarrow> uname e' \<noteq> None)"
  using assms
proof (induction xs arbitrary: m e)
  case Nil
  then show ?case by auto
next
  case (Cons x xs)
  from merge_ignored_keeps [OF Cons.prems, of x]
  obtain e1 where e1: "e1 \<in> set (merge_ignored m x)" "uid e1 = uid e"
    "has_name (uname e) \<longrightarrow> e1 = e" "uname e \<noteq> None \<longrightarrow> uname e1 \<noteq> None"
    by blast
  from Cons.IH [OF e1(1)]
  obtain e2 where e2: "e2 \<in> set (foldl merge_ignored (merge_ignored m x) xs)" "uid e2 = uid e1"
    "has_name (uname e1) \<longrightarrow> e2 = e1" "uname e1 \<noteq> None \<longrightarrow> uname e2 \<noteq> None"
    by blast
  show ?case
    using e1 e2 by (intro bexI [of _ e2]) auto
qed

lemma foldl_merge_named:
  assumes "u \<in> set xs" and "has_name (uname u)"
  shows "\<exists>e' \<in> set (foldl merge_ignored m xs). uid e' = uid u \<and> has_name (uname e')"
  using assms
proof (induction xs arbitrary: m)
  case Nil
  then show ?case by simp
next
  case (Cons x xs)
  show ?case
  proof (cases "u = x")
    case True
    from merge_ignored_new [of m x]
    obtain e1 where e1: "e1 \<in> set (merge_ignored m x)" "uid e1 = uid x" "has_name (uname e1)"
      using True Cons.prems by blast
    from foldl_merge_keeps [OF e1(1), of xs]
    obtain e2 where "e2 \<in> set (foldl merge_ignored (merge_ignored m x) xs)" "uid e2 = uid e1"
      "has_name (uname e1) \<longrightarrow> e2 = e1"
      by blast
    then show ?thesis using e1 True by auto
  next
    case False
    then have "u \<in> set xs" using Cons.prems by simp
    from Cons.IH [OF this Cons.prems(2)] show ?thesis by simp
  qed
qed


lemma find_uid_None: "find (\<lambda>x. uid x = sid) us = None \<longleftrightarrow> sid \<notin> set (map uid us)"
  by (auto simp: find_None_iff)

lemma fill_first_update:
  assumes "sid \<in> set (map uid us)"
  shows "\<exists>i<length us. uid (us ! i) = sid \<and> (\<forall>j<i. uid (us ! j) \<noteq> sid)
           \<and> fill_first sid sname us = us[i := fill_name sid sname (us ! i)]"
  using assms
proof (induction us)
  case Nil
  then show ?case by simp
next
  case (Cons x xs)
  show ?case
  proof (cases "uid x = sid")
    case True
    then have "fill_first sid sname (x # xs) = (x # xs)[0 := fill_name sid sname ((x # xs) ! 0)]"
      by simp
    then show ?thesis using True by (intro exI [of _ 0]) simp
  next
    case False
    then have "sid \<in> set (map uid xs)" using Cons.prems by auto
    from Cons.IH [OF this]
    obtain i where i: "i < length xs" "uid (xs ! i) = sid" "\<forall>j<i. uid (xs ! j) \<noteq> sid"
      "fill_first sid sname xs = xs[i := fill_name sid sname (xs ! i)]"
      by blast
    have "\<forall>j<Suc i. uid ((x # xs) ! j) \<noteq> sid"
      using i(3) False by (auto simp: less_Suc_eq_0_disj)
    moreover have "fill_first sid sname (x # xs) = (x # xs)[Suc i := fill_name sid sname ((x # xs) ! Suc i)]"
      using False i(4) by simp
    ultimately show ?thesis using i(1,2) by (intro exI [of _ "Suc i"]) simp
  qed
qed

lemma upsert_present:
  assumes "sid \<in> set (map uid us)"
  shows "upsertIgnoredUser us sid name = fill_first sid (if has_name name then name else None) us"
proof -
  from assms have "find (\<lambda>x. uid x = sid) us \<noteq> None"
    by (simp add: find_uid_None)
  then show ?thesis
    by (auto simp: upsertIgnoredUser_def Let_def)
qed

lemma upsert_absent:
  assumes "sid \<notin> set (map uid us)"
  shows "upsertIgnoredUser us sid name = us @ [\<lparr>uid = sid, uname = (if has_name name then name else None)\<rparr>]"
proof -
  from assms have "find (\<lambda>x. uid x = sid) us = None"
    by (simp only: find_uid_None not_False_eq_True)
  then show ?thesis
    by (simp add: upsertIgnoredUser_def Let_def)
qed

lemma upsert_keeps_names:
  assumes "i < length us" and "uname (us ! i) \<noteq> None"
  shows "i < length (upsertIgnoredUser us sid name) \<and> uid (upsertIgnoredUser us sid name ! i) = uid (us ! i)
         \<and> uname (upsertIgnoredUser us sid name ! i) \<noteq> None"
proof (cases "sid \<in> set (map uid us)")
  case False
  then show ?thesis using assms by (simp add: upsert_absent nth_append)
next
  case True
  let ?sn = "if has_name name then name else None"
  from fill_first_update [OF True, of ?sn]
  obtain k where k: "k < length us" "fill_first sid ?sn us = us[k := fill_name sid ?sn (us ! k)]"
    by blast
  have "upsertIgnoredUser us sid name = us[k := fill_name sid ?sn (us ! k)]"
    using upsert_present [OF True] k(2) by simp
  then show ?thesis
    using assms k(1) fill_name_not_cleared [of "us ! i" sid ?sn]
    by (cases "i = k") simp_all
qed

lemma upsert_distinct:
  assumes "distinct (map uid us)"
  shows "distinct (map uid (upsertIgnoredUser us sid name))"
proof (cases "sid \<in> set (map uid us)")
  case False
  then show ?thesis using assms by (simp add: upsert_absent)
next
  case True
  let ?sn = "if has_name name then name else None"
  from fill_first_update [OF True, of ?sn]
  obtain k where k: "k < length us" "fill_first sid ?sn us = us[k := fill_name sid ?sn (us ! k)]"
    by blast
  have "map uid (us[k := fill_name sid ?sn (us ! k)]) = map uid us"
    using k(1) by (simp add: map_update list_update_same_conv)
  then show ?thesis
    using assms upsert_present [OF True] k(2) by simp
qed


lemma last_index_SomeD:
  assumes "last_index k us = Some i"
  shows "i < length us \<and> uid (us ! i) = k"
proof -
  from assms obtain rest where "filter (\<lambda>i. uid (us ! i) = k) (rev [0..<length us]) = i # rest"
    by (auto simp: last_index_def split: list.splits)
  then have "i \<in> set (filter (\<lambda>i. uid (us ! i) = k) (rev [0..<length us]))"
    by simp
  then show ?thesis by simp
qed

lemma last_index_distinct:
  assumes "distinct (map uid us)" and "i < length us"
  shows "last_index (uid (us ! i)) us = Some i"
proof -
  have "i \<in> set (filter (\<lambda>j. uid (us ! j) = uid (us ! i)) (rev [0..<length us]))"
    using assms(2) by simp
  then have "filter (\<lambda>j. uid (us ! j) = uid (us ! i)) (rev [0..<length us]) \<noteq> []"
    by (metis empty_iff list.set(1))
  then obtain j where j: "last_index (uid (us ! i)) us = Some j"
    by (cases "filter (\<lambda>j. uid (us ! j) = uid (us ! i)) (rev [0..<length us])")
       (simp_all add: last_index_def)
  from last_index_SomeD [OF j] have "j < length us" "uid (us ! j) = uid (us ! i)"
    by simp_all
  then have "map uid us ! j = map uid us ! i"
    using assms(2) by simp
  moreover have "j < length (map uid us)" "i < length (map uid us)"
    using assms(2) \<open>j < length us\<close> by simp_all
  ultimately have "j = i"
    using assms(1) nth_eq_iff_index_eq [of "map uid us" j i] by blast
  then show ?thesis using j by simp
qed

lemma names_kept_refl: "names_kept us us"
  by (simp add: names_kept_def)

lemma names_kept_length: "names_kept us us' \<Longrightarrow> length us' = length us"
  by (metis length_map names_kept_def)

lemma names_kept_trans:
  assumes "names_kept us us'" and "names_kept us' us''"
  shows "names_kept us us''"
proof -
  have l: "length us' = length us" by (rule names_kept_length [OF assms(1)])
  have ids: "map uid us'' = map uid us"
    using assms by (simp add: names_kept_def)
  have "(has_name (uname (us ! i)) \<longrightarrow> us'' ! i = us ! i)
          \<and> (uname (us ! i) \<noteq> None \<longrightarrow> uname (us'' ! i) \<noteq> None)" if "i < length us" for i
  proof -
    have a: "(has_name (uname (us ! i)) \<longrightarrow> us' ! i = us ! i)
          \<and> (uname (us ! i) \<noteq> None \<longrightarrow> uname (us' ! i) \<noteq> None)"
      using assms(1) that by (simp add: names_kept_def)
    have b: "(has_name (uname (us' ! i)) \<longrightarrow> us'' ! i = us' ! i)
          \<and> (uname (us' ! i) \<noteq> None \<longrightarrow> uname (us'' ! i) \<noteq> None)"
      using assms(2) that l by (simp add: names_kept_def)
    show ?thesis using a b by auto
  qed
  then show ?thesis using ids by (simp add: names_kept_def)
qed

lemma backfill_stream_kept: "names_kept us (fst (backfill_stream (us, c) s))"
proof (cases "last_index (user_id s) us")
  case None
  then show ?thesis by (simp add: names_kept_refl)
next
  case (Some i)
  from last_index_SomeD [OF Some] have i: "i < length us" by simp
  show ?thesis
  proof (cases "\<not> has_name (uname (us ! i)) \<and> has_name (user_name s)")
    case False
    then show ?thesis using Some by (auto simp: names_kept_refl)
  next
    case True
    let ?us' = "us[i := (us ! i)\<lparr>uname := user_name s\<rparr>]"
    have r: "fst (backfill_stream (us, c) s) = ?us'"
      using Some True by simp
    have ids: "map uid ?us' = map uid us"
      using i by (simp add: map_update list_update_same_conv)
    have "(has_name (uname (us ! j)) \<longrightarrow> ?us' ! j = us ! j)
          \<and> (uname (us ! j) \<noteq> None \<longrightarrow> uname (?us' ! j) \<noteq> None)" if "j < length us" for j
      using that True by (cases "j = i") (auto simp: has_name_def)
    then show ?thesis unfolding r using ids by (simp add: names_kept_def)
  qed
qed

lemma foldl_backfill_kept: "names_kept us (fst (foldl backfill_stream (us, c) ss))"
proof (induction ss arbitrary: us c)
  case Nil
  then show ?case by (simp add: names_kept_refl)
next
  case (Cons s ss)
  obtain us1 c1 where st: "backfill_stream (us, c) s = (us1, c1)"
    by (cases "backfill_stream (us, c) s")
  have "names_kept us us1"
    using backfill_stream_kept [of us c s] st by simp
  moreover have "names_kept us1 (fst (foldl backfill_stream (us1, c1) ss))"
    by (rule Cons.IH)
  ultimately show ?case
    using st by (simp add: names_kept_trans)
qed

lemma unique_distinct: "distinct xs \<Longrightarrow> unique xs = xs"
  by (simp add: unique_def distinct_remdups_id)

lemma map_values_distinct:
  assumes "distinct (map uid us)"
  shows "map_values us = us"
proof -
  have "map (\<lambda>k. case last_index k us of Some i \<Rightarrow> [us ! i] | None \<Rightarrow> []) (map uid us)
          = map (\<lambda>x. [x]) us"
  proof (rule nth_equalityI)
    show "length (map (\<lambda>k. case last_index k us of Some i \<Rightarrow> [us ! i] | None \<Rightarrow> []) (map uid us))
            = length (map (\<lambda>x. [x]) us)"
      by simp
  next
    fix i
    assume "i < length (map (\<lambda>k. case last_index k us of Some i \<Rightarrow> [us ! i] | None \<Rightarrow> []) (map uid us))"
    then have i: "i < length us" by simp
    then show "map (\<lambda>k. case last_index k us of Some i \<Rightarrow> [us ! i] | None \<Rightarrow> []) (map uid us) ! i
                 = map (\<lambda>x. [x]) us ! i"
      using last_index_distinct [OF assms i] by simp
  qed
  then have "concat (map (\<lambda>k. case last_index k us of Some i \<Rightarrow> [us ! i] | None \<Rightarrow> []) (map uid us))
          = concat (map (\<lambda>x. [x]) us)"
    by (rule arg_cong)
  moreover have "concat (map (\<lambda>x. [x]) us) = us"
    by (induction us) simp_all
  moreover have "unique (map uid us) = map uid us"
    using assms by (rule unique_distinct)
  ultimately show ?thesis
    by (simp only: map_values_def)
qed

lemma backfill_names_kept:
  assumes "distinct (map uid us)"
  shows "names_kept us (backfillIgnoredNamesFromPayload us p)"
proof (cases p)
  case None
  then show ?thesis by (simp add: backfillIgnoredNamesFromPayload_def names_kept_refl)
next
  case (Some games)
  obtain us1 c1 where f: "foldl backfill_stream (us, False) (concat (map streams games)) = (us1, c1)"
    by (cases "foldl backfill_stream (us, False) (concat (map streams games))")
  have k: "names_kept us us1"
    using foldl_backfill_kept [of us False "concat (map streams games)"] f by simp
  then have "distinct (map uid us1)"
    using assms by (simp add: names_kept_def)
  then have "map_values us1 = us1" by (rule map_values_distinct)
  then show ?thesis
    using Some f k by (simp add: backfillIgnoredNamesFromPayload_def names_kept_refl)
qed


lemma sequence_Inr: "sequence xs = Inr vs \<Longrightarrow> xs = map Inr vs"
proof (induction xs arbitrary: vs)
  case Nil
  then show ?case by simp
next
  case (Cons x xs)
  then show ?case by (auto split: sum.splits)
qed

lemma normalizeIgnored_distinct:
  assumes "normalizeIgnored h raw = Inr r"
  shows "distinct (map uid r)"
proof (cases raw)
  case (JArr items)
  then obtain outs where "r = foldl merge_ignored [] (concat outs)"
    using assms by (auto simp: normalizeIgnored_def split: sum.splits)
  then show ?thesis
    using foldl_merge_distinct [of "[]" "concat outs"] by simp
qed (use assms in \<open>simp_all add: normalizeIgnored_def\<close>)

lemma normalize_item_stored:
  "normalize_item h (stored_entry u)
     = Inr (if trim (uid u) = [] then []
            else [\<lparr>uid = uid u, uname = (if has_name (uname u) then uname u else None)\<rparr>])"
  by (cases "uname u")
     (simp_all add: normalize_item_def normalize_object_def stored_entry_def coalesce_def
        nullish_def has_name_def Let_def)

lemma sequence_map_Inr: "sequence (map (\<lambda>x. Inr (f x)) xs) = Inr (map f xs)"
  by (induction xs) simp_all

lemma normalizeIgnored_stored:
  "normalizeIgnored h (JArr (map stored_entry us))
     = Inr (foldl merge_ignored []
         (concat (map (\<lambda>u. if trim (uid u) = [] then []
                            else [\<lparr>uid = uid u, uname = (if has_name (uname u) then uname u else None)\<rparr>])
                      us)))"
proof -
  have e: "map (normalize_item h) (map stored_entry us)
          = map (\<lambda>u. Inr (if trim (uid u) = [] then []
            else [\<lparr>uid = uid u, uname = (if has_name (uname u) then uname u else None)\<rparr>])) us"
    by (simp add: normalize_item_stored)
  show ?thesis
    unfolding normalizeIgnored_def jsval.case e sequence_map_Inr by simp
qed

lemma normalizeIgnored_stored_named:
  assumes "u \<in> set us" and "trim (uid u) \<noteq> []" and "has_name (uname u)"
  shows "\<exists>r. normalizeIgnored h (JArr (map stored_entry us)) = Inr r
             \<and> (\<exists>e\<in>set r. uid e = uid u \<and> has_name (uname e))"
proof -
  let ?f = "\<lambda>u. if trim (uid u) = [] then []
                 else [\<lparr>uid = uid u, uname = (if has_name (uname u) then uname u else None)\<rparr>]"
  let ?u = "\<lparr>uid = uid u, uname = (if has_name (uname u) then uname u else None)\<rparr>"
  have "?f u = [?u]" using assms(2) by simp
  then have "?u \<in> set (concat (map ?f us))"
    using assms(1) by (auto intro!: bexI [of _ u])
  moreover have "has_name (uname ?u)" using assms(3) by simp
  ultimately have "\<exists>e\<in>set (foldl merge_ignored [] (concat (map ?f us))).
                     uid e = uid ?u \<and> has_name (uname e)"
    by (rule foldl_merge_named)
  then show ?thesis
    unfolding normalizeIgnored_stored by simp
qed

lemma foldl_merge_fresh:
  "distinct (map uid xs) \<Longrightarrow> set (map uid m) \<inter> set (map uid xs) = {}
     \<Longrightarrow> foldl merge_ignored m xs = m @ xs"
proof (induction xs arbitrary: m)
  case Nil
  then show ?case by simp
next
  case (Cons x xs)
  have nx: "uid x \<notin> set (map uid m)" using Cons.prems(2) by auto
  have m: "merge_ignored m x = m @ [x]"
    using nx by (simp add: merge_ignored_def)
  have d: "distinct (map uid xs)" using Cons.prems(1) by simp
  have i: "set (map uid (m @ [x])) \<inter> set (map uid xs) = {}"
    using Cons.prems by auto
  show ?case
    using Cons.IH [OF d i] m by simp
qed

lemma normalizeIgnored_stored_id:
  assumes "distinct (map uid us)" and "\<forall>u\<in>set us. trim (uid u) \<noteq> [] \<and> uname u \<noteq> Some []"
  shows "normalizeIgnored h (JArr (map stored_entry us)) = Inr us"
proof -
  have e: "map (\<lambda>u. if trim (uid u) = [] then []
                  else [\<lparr>uid = uid u, uname = (if has_name (uname u) then uname u else None)\<rparr>]) us
          = map (\<lambda>u. [u]) us"
  proof (rule map_cong [OF refl])
    fix u assume "u \<in> set us"
    then have "trim (uid u) \<noteq> []" "uname u \<noteq> Some []" using assms(2) by blast+
    then show "(if trim (uid u) = [] then []
                  else [\<lparr>uid = uid u, uname = (if has_name (uname u) then uname u else None)\<rparr>]) = [u]"
      by (cases "uname u") (simp_all add: has_name_def)
  qed
  have c: "concat (map (\<lambda>u. [u]) us) = us" by (induction us) simp_all
  show ?thesis
    unfolding normalizeIgnored_stored e c using foldl_merge_fresh [OF assms(1), of "[]"] by simp
qed

text \<open>
  C7, as the code has it. If the id is already present, \<^verbatim>\<open>upsertIgnoredUser\<close> leaves the
  list as it is, except that the first entry with that id, when its name is empty
  (\<^verbatim>\<open>null\<close> or the empty string: the code tests truthiness) and the add carries a
  non-empty name, gets that name. \<^verbatim>\<open>upsertIgnoredUser\<close> keeps every id in place, and
  an entry whose name is not \<^verbatim>\<open>null\<close> keeps a name that is not \<^verbatim>\<open>null\<close>. \<^verbatim>\<open>normalizeIgnored\<close>, applied to the
  stored form of a list, returns a list in which every id that is not blank and has an
  entry with a non-empty name has a non-empty name, and returns the list itself when its
  ids are distinct and not blank and no name is the empty string. On a list with
  distinct ids (which normalization and upsert establish and keep)
  \<^verbatim>\<open>backfillIgnoredNamesFromPayload\<close> keeps every id in place, leaves every entry with a
  non-empty name untouched, and an entry whose name is not \<^verbatim>\<open>null\<close> keeps a name that is
  not \<^verbatim>\<open>null\<close>.
\<close>

theorem ignore_merge_never_clears:
  "(sid \<in> set (map uid us) \<longrightarrow>
      (\<exists>i<length us. uid (us ! i) = sid \<and> (\<forall>j<i. uid (us ! j) \<noteq> sid)
         \<and> (has_name (uname (us ! i)) \<or> \<not> has_name name \<longrightarrow>
              upsertIgnoredUser us sid name = us)
         \<and> (\<not> has_name (uname (us ! i)) \<and> has_name name \<longrightarrow>
              upsertIgnoredUser us sid name = us[i := (us ! i)\<lparr>uname := name\<rparr>])))
   \<and> (\<forall>i<length us. uname (us ! i) \<noteq> None \<longrightarrow>
          uid (upsertIgnoredUser us sid name ! i) = uid (us ! i)
          \<and> uname (upsertIgnoredUser us sid name ! i) \<noteq> None)
   \<and> (\<exists>r. normalizeIgnored h (JArr (map stored_entry us)) = Inr r
          \<and> (\<forall>u\<in>set us. trim (uid u) \<noteq> [] \<and> has_name (uname u) \<longrightarrow>
                (\<exists>e\<in>set r. uid e = uid u \<and> has_name (uname e)))
          \<and> (distinct (map uid us) \<and> (\<forall>u\<in>set us. trim (uid u) \<noteq> [] \<and> uname u \<noteq> Some [])
                \<longrightarrow> r = us))
   \<and> (distinct (map uid us) \<longrightarrow> names_kept us (backfillIgnoredNamesFromPayload us p))"
proof -
  let ?sn = "if has_name name then name else None"
  have a: "\<exists>i<length us. uid (us ! i) = sid \<and> (\<forall>j<i. uid (us ! j) \<noteq> sid)
         \<and> (has_name (uname (us ! i)) \<or> \<not> has_name name \<longrightarrow>
              upsertIgnoredUser us sid name = us)
         \<and> (\<not> has_name (uname (us ! i)) \<and> has_name name \<longrightarrow>
              upsertIgnoredUser us sid name = us[i := (us ! i)\<lparr>uname := name\<rparr>])"
    if p: "sid \<in> set (map uid us)"
  proof -
    from fill_first_update [OF p, of ?sn]
    obtain i where i: "i < length us" "uid (us ! i) = sid" "\<forall>j<i. uid (us ! j) \<noteq> sid"
      "fill_first sid ?sn us = us[i := fill_name sid ?sn (us ! i)]"
      by blast
    have u: "upsertIgnoredUser us sid name = us[i := fill_name sid ?sn (us ! i)]"
      using upsert_present [OF p] i(4) by simp
    have c1: "upsertIgnoredUser us sid name = us"
      if "has_name (uname (us ! i)) \<or> \<not> has_name name"
    proof -
      have "fill_name sid ?sn (us ! i) = us ! i"
        using that by (auto simp: fill_name_def has_name_def)
      then show ?thesis using u by simp
    qed
    have c2: "upsertIgnoredUser us sid name = us[i := (us ! i)\<lparr>uname := name\<rparr>]"
      if "\<not> has_name (uname (us ! i)) \<and> has_name name"
    proof -
      have "fill_name sid ?sn (us ! i) = (us ! i)\<lparr>uname := name\<rparr>"
        using that i(2) by (simp add: fill_name_def)
      then show ?thesis using u by simp
    qed
    show ?thesis using i(1,2,3) c1 c2 by blast
  qed
  have b: "\<forall>i<length us. uname (us ! i) \<noteq> None \<longrightarrow>
          uid (upsertIgnoredUser us sid name ! i) = uid (us ! i)
          \<and> uname (upsertIgnoredUser us sid name ! i) \<noteq> None"
    using upsert_keeps_names [of _ us sid name] by blast
  obtain r where r: "normalizeIgnored h (JArr (map stored_entry us)) = Inr r"
    unfolding normalizeIgnored_stored by blast
  have c1: "\<forall>u\<in>set us. trim (uid u) \<noteq> [] \<and> has_name (uname u) \<longrightarrow>
                (\<exists>e\<in>set r. uid e = uid u \<and> has_name (uname e))"
  proof (intro ballI impI)
    fix u assume u: "u \<in> set us" "trim (uid u) \<noteq> [] \<and> has_name (uname u)"
    from normalizeIgnored_stored_named [OF u(1), of h] u(2)
    show "\<exists>e\<in>set r. uid e = uid u \<and> has_name (uname e)"
      unfolding r by simp
  qed
  have c2: "distinct (map uid us) \<and> (\<forall>u\<in>set us. trim (uid u) \<noteq> [] \<and> uname u \<noteq> Some [])
                \<longrightarrow> r = us"
    using normalizeIgnored_stored_id [of us h] r by simp
  have c: "\<exists>r. normalizeIgnored h (JArr (map stored_entry us)) = Inr r
          \<and> (\<forall>u\<in>set us. trim (uid u) \<noteq> [] \<and> has_name (uname u) \<longrightarrow>
                (\<exists>e\<in>set r. uid e = uid u \<and> has_name (uname e)))
          \<and> (distinct (map uid us) \<and> (\<forall>u\<in>set us. trim (uid u) \<noteq> [] \<and> uname u \<noteq> Some [])
                \<longrightarrow> r = us)"
    using r c1 c2 by blast
  have d: "distinct (map uid us) \<longrightarrow> names_kept us (backfillIgnoredNamesFromPayload us p)"
    using backfill_names_kept by blast
  show ?thesis using a b c d by blast
qed

theorem ignore_merge_never_clears_witness:
  "upsertIgnoredUser [\<lparr>uid = ''7'', uname = None\<rparr>, \<lparr>uid = ''9'', uname = Some ''bob''\<rparr>] ''7'' (Some ''amy'')
     = [\<lparr>uid = ''7'', uname = Some ''amy''\<rparr>, \<lparr>uid = ''9'', uname = Some ''bob''\<rparr>]
   \<and> upsertIgnoredUser [\<lparr>uid = ''7'', uname = None\<rparr>, \<lparr>uid = ''9'', uname = Some ''bob''\<rparr>] ''9'' (Some ''amy'')
     = [\<lparr>uid = ''7'', uname = None\<rparr>, \<lparr>uid = ''9'', uname = Some ''bob''\<rparr>]
   \<and> normalizeIgnored example_host
        (JArr [JObj [(''id'', JStr ''7''), (''name'', JNull)],
               JObj [(''id'', JStr ''9''), (''name'', JStr ''bob'')]])
     = Inr [\<lparr>uid = ''7'', uname = None\<rparr>, \<lparr>uid = ''9'', uname = Some ''bob''\<rparr>]
   \<and> names_kept [\<lparr>uid = ''7'', uname = None\<rparr>, \<lparr>uid = ''9'', uname = Some ''bob''\<rparr>]
        (backfillIgnoredNamesFromPayload [\<lparr>uid = ''7'', uname = None\<rparr>, \<lparr>uid = ''9'', uname = Some ''bob''\<rparr>]
           (Some [\<lparr>game_id = ''g'', game_name = ''G'', streams =
              [\<lparr>stream_id = ''s'', user_id = ''9'', user_name = Some ''rob'', viewer_count = 3, title = ''t''\<rparr>]\<rparr>]))"
proof -
  let ?us = "[\<lparr>uid = ''7'', uname = None\<rparr>, \<lparr>uid = ''9'', uname = Some ''bob''\<rparr>]"
  let ?p = "Some [\<lparr>game_id = ''g'', game_name = ''G'', streams =
              [\<lparr>stream_id = ''s'', user_id = ''9'', user_name = Some ''rob'', viewer_count = 3, title = ''t''\<rparr>]\<rparr>]"
  note t = ignore_merge_never_clears [of "''7''" ?us "Some ''amy''" example_host ?p]
  have d: "distinct (map uid ?us)" by simp
  have w: "\<forall>u\<in>set ?us. trim (uid u) \<noteq> [] \<and> uname u \<noteq> Some []"
    by (simp add: trim_def is_space_def)
  have k: "names_kept ?us (backfillIgnoredNamesFromPayload ?us ?p)"
    using t d by blast
  have n: "normalizeIgnored example_host (JArr (map stored_entry ?us)) = Inr ?us"
    using t d w by blast
  have u1: "upsertIgnoredUser ?us ''7'' (Some ''amy'')
     = [\<lparr>uid = ''7'', uname = Some ''amy''\<rparr>, \<lparr>uid = ''9'', uname = Some ''bob''\<rparr>]"
    by (simp add: upsertIgnoredUser_def fill_name_def has_name_def)
  have u2: "upsertIgnoredUser ?us ''9'' (Some ''amy'') = ?us"
    by (simp add: upsertIgnoredUser_def fill_name_def has_name_def)
  show ?thesis using k n u1 u2 by (simp add: stored_entry_def)
qed

text \<open>
  C7 as stated fails for a name that is the empty string, which is not \<^verbatim>\<open>null\<close>: an add
  for an id whose entry has that name changes the entry, and \<^verbatim>\<open>normalizeIgnored\<close>
  replaces that name by \<^verbatim>\<open>null\<close>.
\<close>

theorem ignore_merge_empty_name_counterexample:
  "upsertIgnoredUser [\<lparr>uid = ''7'', uname = Some ''''\<rparr>] ''7'' (Some ''amy'')
     = [\<lparr>uid = ''7'', uname = Some ''amy''\<rparr>]
   \<and> normalizeIgnored example_host (JArr [JObj [(''id'', JStr ''7''), (''name'', JStr '''')]])
     = Inr [\<lparr>uid = ''7'', uname = None\<rparr>]"
  by (simp add: upsertIgnoredUser_def fill_name_def has_name_def normalizeIgnored_def
      normalize_item_def normalize_object_def coalesce_def nullish_def Let_def trim_def
      is_space_def merge_ignored_def)

section \<open>Properties of the filter debounce\<close>

lemma clampInt_string_total: "\<exists>n. clampInt h (JStr v) = Inr n"
  by (simp add: clampInt_def split: jsnum.splits)

lemma number_input_pending:
  assumes "filtersDebounce st = Some d" and "fst ev < d" and "is_number_input (snd ev)"
  shows "refreshCalls (on_filter_event h st ev) = refreshCalls st
         \<and> filtersDebounce (on_filter_event h st ev) = Some (fst ev + 250)"
proof -
  obtain key v where ev: "snd ev = NumberInput key v"
    using assms(3) by (cases "snd ev") simp_all
  obtain n where n: "clampInt h (JStr v) = Inr n"
    using clampInt_string_total by blast
  have f: "fire_due (fst ev) st = st"
    using assms(1,2) by (simp add: fire_due_def)
  show ?thesis
    by (simp add: on_filter_event_def Let_def ev n f scheduleFilterRefresh_def)
qed

lemma number_input_first:
  assumes "is_number_input (snd ev)"
  shows "refreshCalls (on_filter_event h st ev) = refreshCalls (fire_due (fst ev) st)
         \<and> filtersDebounce (on_filter_event h st ev) = Some (fst ev + 250)"
proof -
  obtain key v where ev: "snd ev = NumberInput key v"
    using assms by (cases "snd ev") simp_all
  obtain n where n: "clampInt h (JStr v) = Inr n"
    using clampInt_string_total by blast
  show ?thesis
    by (simp add: on_filter_event_def Let_def ev n scheduleFilterRefresh_def)
qed

lemma burst_pending:
  assumes "filtersDebounce st = Some d" and "lo + 250 \<le> d"
    and "\<forall>ev\<in>set evs. is_number_input (snd ev) \<and> lo \<le> fst ev \<and> fst ev < lo + 250"
  shows "refreshCalls (run_filter_events h st evs) = refreshCalls st
         \<and> filtersDebounce (run_filter_events h st evs)
             = Some (if evs = [] then d else fst (last evs) + 250)"
  using assms
proof (induction evs arbitrary: st d)
  case Nil
  then show ?case by (simp add: run_filter_events_def)
next
  case (Cons ev evs)
  have ev: "is_number_input (snd ev)" "lo \<le> fst ev" "fst ev < lo + 250"
    using Cons.prems(3) by simp_all
  then have "fst ev < d" using Cons.prems(2) by simp
  from number_input_pending [OF Cons.prems(1) this ev(1), of h]
  have s1: "refreshCalls (on_filter_event h st ev) = refreshCalls st"
    and s2: "filtersDebounce (on_filter_event h st ev) = Some (fst ev + 250)"
    by simp_all
  have rest: "\<forall>e\<in>set evs. is_number_input (snd e) \<and> lo \<le> fst e \<and> fst e < lo + 250"
    using Cons.prems(3) by simp
  have "lo + 250 \<le> fst ev + 250" using ev(2) by simp
  from Cons.IH [OF s2 this rest]
  have "refreshCalls (run_filter_events h (on_filter_event h st ev) evs) = refreshCalls st"
    and "filtersDebounce (run_filter_events h (on_filter_event h st ev) evs)
             = Some (if evs = [] then fst ev + 250 else fst (last evs) + 250)"
    using s1 by simp_all
  then show ?case
    by (simp add: run_filter_events_def)
qed

lemma sorted_le_last:
  fixes xs :: "nat list"
  shows "sorted xs \<Longrightarrow> x \<in> set xs \<Longrightarrow> x \<le> last xs"
proof (induction xs)
  case Nil
  then show ?case by simp
next
  case (Cons a xs)
  show ?case
  proof (cases "xs = []")
    case True
    then show ?thesis using Cons.prems by simp
  next
    case False
    then have "last xs \<in> set xs" by simp
    then have "a \<le> last xs" using Cons.prems(1) by auto
    moreover have "x \<in> set xs \<Longrightarrow> x \<le> last xs"
      using Cons.IH Cons.prems(1) by simp
    ultimately show ?thesis using Cons.prems(2) False by auto
  qed
qed

text \<open>
  C9, as the code has it. Edits of the number fields, one or more, the last less than
  250 ms after the first, produce no call of \<^verbatim>\<open>refreshStreams()\<close> while they arrive and
  none before 250 ms have passed since the last one (the calls logged are those of a
  timer that was already due before the first edit); once that time is reached, exactly
  one call has been added, 250 ms after the last edit, and no timer is pending. A change
  of the checkbox calls \<^verbatim>\<open>refreshStreams()\<close> at once.
\<close>

theorem filter_debounce:
  assumes "evs \<noteq> []"
    and "\<forall>ev\<in>set evs. is_number_input (snd ev)"
    and "sorted (map fst evs)"
    and "fst (last evs) < fst (hd evs) + 250"
  shows "refreshCalls (run_filter_events h st evs) = refreshCalls (fire_due (fst (hd evs)) st)
         \<and> filtersDebounce (run_filter_events h st evs) = Some (fst (last evs) + 250)
         \<and> (\<forall>t. t < fst (last evs) + 250 \<longrightarrow>
               refreshCalls (fire_due t (run_filter_events h st evs))
                 = refreshCalls (fire_due (fst (hd evs)) st))
         \<and> (\<forall>t. fst (last evs) + 250 \<le> t \<longrightarrow>
               refreshCalls (fire_due t (run_filter_events h st evs))
                 = refreshCalls (fire_due (fst (hd evs)) st) @ [fst (last evs) + 250]
               \<and> filtersDebounce (fire_due t (run_filter_events h st evs)) = None)
         \<and> (\<forall>t b. refreshCalls (on_filter_event h st (t, VerifiedChange b))
                     = refreshCalls (fire_due t st) @ [t])"
proof -
  obtain ev rest where evs: "evs = ev # rest"
    using assms(1) by (cases evs) simp_all
  let ?lo = "fst ev"
  let ?st1 = "on_filter_event h st ev"
  have ev_num: "is_number_input (snd ev)" using assms(2) evs by simp
  from number_input_first [OF ev_num, of h st]
  have s1: "refreshCalls ?st1 = refreshCalls (fire_due ?lo st)"
    and s2: "filtersDebounce ?st1 = Some (?lo + 250)"
    by simp_all
  have hi: "fst (last evs) < ?lo + 250" using assms(4) evs by simp
  have bounds: "\<forall>e\<in>set rest. is_number_input (snd e) \<and> ?lo \<le> fst e \<and> fst e < ?lo + 250"
  proof
    fix e assume e: "e \<in> set rest"
    then have n: "is_number_input (snd e)" using assms(2) evs by simp
    have lo: "?lo \<le> fst e" using assms(3) evs e by auto
    have "fst e \<in> set (map fst evs)" using e evs by simp
    moreover have "last (map fst evs) = fst (last evs)"
      using assms(1) by (simp add: last_map)
    ultimately have "fst e \<le> fst (last evs)"
      using sorted_le_last [OF assms(3), of "fst e"] by simp
    then show "is_number_input (snd e) \<and> ?lo \<le> fst e \<and> fst e < ?lo + 250"
      using n lo hi by simp
  qed
  from burst_pending [OF s2 _ bounds, of h]
  have r1: "refreshCalls (run_filter_events h ?st1 rest) = refreshCalls ?st1"
    and r2: "filtersDebounce (run_filter_events h ?st1 rest)
               = Some (if rest = [] then ?lo + 250 else fst (last rest) + 250)"
    by simp_all
  have run: "run_filter_events h st evs = run_filter_events h ?st1 rest"
    by (simp add: run_filter_events_def evs)
  have last: "(if rest = [] then ?lo + 250 else fst (last rest) + 250) = fst (last evs) + 250"
    by (simp add: evs)
  have a: "refreshCalls (run_filter_events h st evs) = refreshCalls (fire_due (fst (hd evs)) st)"
    using run r1 s1 evs by simp
  have b: "filtersDebounce (run_filter_events h st evs) = Some (fst (last evs) + 250)"
    using run r2 last by simp
  have c: "\<forall>t. t < fst (last evs) + 250 \<longrightarrow>
               refreshCalls (fire_due t (run_filter_events h st evs))
                 = refreshCalls (fire_due (fst (hd evs)) st)"
    using a b by (simp add: fire_due_def)
  have d: "\<forall>t. fst (last evs) + 250 \<le> t \<longrightarrow>
               refreshCalls (fire_due t (run_filter_events h st evs))
                 = refreshCalls (fire_due (fst (hd evs)) st) @ [fst (last evs) + 250]
               \<and> filtersDebounce (fire_due t (run_filter_events h st evs)) = None"
    using a b by (simp add: fire_due_def)
  have e: "\<forall>t b. refreshCalls (on_filter_event h st (t, VerifiedChange b))
                     = refreshCalls (fire_due t st) @ [t]"
    by (simp add: on_filter_event_def Let_def)
  show ?thesis using a b c d e by blast
qed


theorem filter_debounce_witness:
  "refreshCalls (fire_due 1000 (run_filter_events example_host filter_init
      [(0, NumberInput MinViewers ''12''), (150, NumberInput MaxViewers ''12'')])) = [400]
   \<and> refreshCalls (fire_due 399 (run_filter_events example_host filter_init
      [(0, NumberInput MinViewers ''12''), (150, NumberInput MaxViewers ''12'')])) = []"
proof -
  let ?evs = "[(0::nat, NumberInput MinViewers ''12''), (150, NumberInput MaxViewers ''12'')]"
  have 1: "?evs \<noteq> []" by simp
  have 2: "\<forall>ev\<in>set ?evs. is_number_input (snd ev)" by simp
  have 3: "sorted (map fst ?evs)" by simp
  have 4: "fst (last ?evs) < fst (hd ?evs) + 250" by simp
  have 5: "refreshCalls (fire_due (fst (hd ?evs)) filter_init) = []"
    by (simp add: fire_due_def filter_init_def)
  show ?thesis
    using filter_debounce [OF 1 2 3 4, of example_host filter_init] 5 by simp
qed

text \<open>
  C9 as stated fails for the \<^verbatim>\<open>verifiedOnly\<close> checkbox, a filter field whose handler
  does not go through the debounce: two changes 10 ms apart produce two calls.
\<close>

theorem filter_debounce_counterexample:
  "refreshCalls (run_filter_events example_host filter_init
      [(0, VerifiedChange True), (10, VerifiedChange False)]) = [0, 10]"
  by (simp add: run_filter_events_def on_filter_event_def fire_due_def filter_init_def Let_def)

section \<open>Properties of the refresh controller\<close>

lemma rinv_init: "rinv (refresh_init c)"
  by (simp add: rinv_def refresh_init_def)

lemma rinv_refreshStreams: "rinv st \<Longrightarrow> rinv (refreshStreams st)"
  by (cases "outstanding st")
     (auto simp: rinv_def refreshStreams_def refreshStreamsOnce_start_def)

lemma rinv_settles: "rinv st \<Longrightarrow> rinv (refresh_settles st)"
  by (cases "outstanding st")
     (auto simp: rinv_def refresh_settles_def refreshStreams_def refreshStreamsOnce_start_def Let_def)

lemma rinv_step: "rinv st \<Longrightarrow> rinv (refresh_step st ev)"
  by (cases ev) (simp_all add: rinv_refreshStreams rinv_settles, simp add: rinv_def)

lemma rinv_run: "rinv st \<Longrightarrow> rinv (refresh_run st evs)"
  unfolding refresh_run_def
  by (induction evs arbitrary: st) (simp_all add: rinv_step)

text \<open>While a refresh is in flight, calls and configuration changes issue nothing.\<close>

lemma in_flight_step:
  assumes "refreshInFlight st" and "ev \<noteq> Settle"
  shows "refreshInFlight (refresh_step st ev) \<and> issued (refresh_step st ev) = issued st
         \<and> outstanding (refresh_step st ev) = outstanding st
         \<and> runs (refresh_step st ev) = runs st
         \<and> refreshQueued (refresh_step st ev) = (refreshQueued st \<or> ev = Refresh)"
  using assms by (cases ev) (simp_all add: refreshStreams_def)

lemma in_flight_run:
  assumes "refreshInFlight st" and "Settle \<notin> set evs"
  shows "refreshInFlight (refresh_run st evs) \<and> issued (refresh_run st evs) = issued st
         \<and> outstanding (refresh_run st evs) = outstanding st
         \<and> runs (refresh_run st evs) = runs st
         \<and> refreshQueued (refresh_run st evs) = (refreshQueued st \<or> Refresh \<in> set evs)"
  using assms
proof (induction evs arbitrary: st)
  case Nil
  then show ?case by (simp add: refresh_run_def)
next
  case (Cons ev evs)
  have ev: "ev \<noteq> Settle" and rest: "Settle \<notin> set evs"
    using Cons.prems(2) by auto
  note s = in_flight_step [OF Cons.prems(1) ev]
  from s have fl: "refreshInFlight (refresh_step st ev)" by simp
  note r = Cons.IH [OF fl rest]
  have run: "refresh_run st (ev # evs) = refresh_run (refresh_step st ev) evs"
    by (simp add: refresh_run_def)
  show ?case
    unfolding run using r s by auto
qed

lemma settle_queued:
  assumes "refreshInFlight st" and "refreshQueued st"
  shows "runs (refresh_settles st) = Suc (runs st)
         \<and> issued (refresh_settles st)
              = issued st @ (if followedGameIds (cfg st) = [] then [] else [stream_request (cfg st)])
         \<and> outstanding (refresh_settles st)
              = drop 1 (outstanding st) @ (if followedGameIds (cfg st) = [] then [] else [stream_request (cfg st)])
         \<and> refreshInFlight (refresh_settles st) \<and> \<not> refreshQueued (refresh_settles st)
         \<and> cfg (refresh_settles st) = cfg st"
  using assms
  by (simp add: refresh_settles_def refreshStreams_def refreshStreamsOnce_start_def Let_def)

text \<open>
  C2, as the code has it. In every state the controller reaches, at most one fetch is
  outstanding, and a follow-up is remembered (one flag) only while a refresh is in
  flight. While a refresh is in flight, any number of calls of \<^verbatim>\<open>refreshStreams()\<close>,
  at least one, mixed with changes of the configuration, issue no fetch and start no
  run; when the active refresh settles, exactly one further run starts. That run issues
  one fetch, built from the configuration as it is at that moment, if a game is
  followed then, and no fetch if none is.
\<close>

theorem refresh_collapse:
  "length (outstanding (refresh_run (refresh_init c) evs0)) \<le> 1
   \<and> (refreshQueued (refresh_run (refresh_init c) evs0)
        \<longrightarrow> refreshInFlight (refresh_run (refresh_init c) evs0))
   \<and> (refreshInFlight st \<and> Settle \<notin> set evs \<and> Refresh \<in> set evs \<longrightarrow>
        issued (refresh_run st evs) = issued st
        \<and> runs (refresh_run st evs) = runs st
        \<and> runs (refresh_settles (refresh_run st evs)) = Suc (runs st)
        \<and> issued (refresh_settles (refresh_run st evs))
             = issued st @ (if followedGameIds (cfg (refresh_run st evs)) = [] then []
                            else [stream_request (cfg (refresh_run st evs))])
        \<and> refreshInFlight (refresh_settles (refresh_run st evs))
        \<and> \<not> refreshQueued (refresh_settles (refresh_run st evs)))"
proof -
  have inv: "rinv (refresh_run (refresh_init c) evs0)"
    by (rule rinv_run [OF rinv_init])
  have a: "length (outstanding (refresh_run (refresh_init c) evs0)) \<le> 1"
    using inv by (simp add: rinv_def)
  have b: "refreshQueued (refresh_run (refresh_init c) evs0)
        \<longrightarrow> refreshInFlight (refresh_run (refresh_init c) evs0)"
    using inv by (simp add: rinv_def)
  have c: "issued (refresh_run st evs) = issued st
        \<and> runs (refresh_run st evs) = runs st
        \<and> runs (refresh_settles (refresh_run st evs)) = Suc (runs st)
        \<and> issued (refresh_settles (refresh_run st evs))
             = issued st @ (if followedGameIds (cfg (refresh_run st evs)) = [] then []
                            else [stream_request (cfg (refresh_run st evs))])
        \<and> refreshInFlight (refresh_settles (refresh_run st evs))
        \<and> \<not> refreshQueued (refresh_settles (refresh_run st evs))"
    if h: "refreshInFlight st \<and> Settle \<notin> set evs \<and> Refresh \<in> set evs"
  proof -
    from h have fl: "refreshInFlight st" and ns: "Settle \<notin> set evs" and r: "Refresh \<in> set evs"
      by simp_all
    note run = in_flight_run [OF fl ns]
    have q: "refreshQueued (refresh_run st evs)" using run r by simp
    have f: "refreshInFlight (refresh_run st evs)" using run by simp
    note s = settle_queued [OF f q]
    show ?thesis using run s by simp
  qed
  show ?thesis using a b c by blast
qed

theorem refresh_collapse_witness:
  "issued (refresh_settles (refresh_run (refresh_run (refresh_init cfg_one) [Refresh])
             [Refresh, SetConfig (cfg_one\<lparr>ignoredIds := [''42'']\<rparr>), Refresh, Refresh]))
     = [stream_request cfg_one, stream_request (cfg_one\<lparr>ignoredIds := [''42'']\<rparr>)]"
proof -
  let ?st = "refresh_run (refresh_init cfg_one) [Refresh]"
  let ?evs = "[Refresh, SetConfig (cfg_one\<lparr>ignoredIds := [''42'']\<rparr>), Refresh, Refresh]"
  have h: "refreshInFlight ?st \<and> Settle \<notin> set ?evs \<and> Refresh \<in> set ?evs"
    by (simp add: refresh_run_def refresh_init_def refreshStreams_def
        refreshStreamsOnce_start_def cfg_one_def)
  have i: "issued ?st = [stream_request cfg_one]"
    by (simp add: refresh_run_def refresh_init_def refreshStreams_def
        refreshStreamsOnce_start_def cfg_one_def)
  have c: "cfg (refresh_run ?st ?evs) = cfg_one\<lparr>ignoredIds := [''42'']\<rparr>"
    by (simp add: refresh_run_def refresh_init_def refreshStreams_def
        refreshStreamsOnce_start_def cfg_one_def)
  have n: "followedGameIds (cfg_one\<lparr>ignoredIds := [''42'']\<rparr>) \<noteq> []"
    by (simp add: cfg_one_def)
  show ?thesis
    using refresh_collapse [of cfg_one "[]" ?st ?evs] h i c n by simp
qed

text \<open>
  C2 as stated fails when the followed set is empty by the time the follow-up starts
  (the last game is unfollowed while a refresh is in flight): the follow-up run issues
  no fetch, so the calls made meanwhile are followed by no additional fetch.
\<close>

theorem refresh_collapse_counterexample:
  "issued (refresh_run (refresh_init cfg_one) [Refresh, SetConfig cfg_none, Refresh, Refresh])
     = [stream_request cfg_one]
   \<and> issued (refresh_run (refresh_init cfg_one) [Refresh, SetConfig cfg_none, Refresh, Refresh, Settle])
     = [stream_request cfg_one]
   \<and> outstanding (refresh_run (refresh_init cfg_one) [Refresh, SetConfig cfg_none, Refresh, Refresh, Settle])
     = []"
  by (simp add: refresh_run_def refresh_init_def refreshStreams_def refresh_settles_def
      refreshStreamsOnce_start_def cfg_one_def cfg_none_def Let_def)

section \<open>Properties of the confirmation gate\<close>

text \<open>
  C4 at the failing input. The page has every element of the dialog. A first
  confirmation is requested at time 0 and a second one at time 1000, while the first is
  pending. The first promise (number 0) is not resolved by the second request, and no
  timer is left that could resolve it: however far the clock advances, nothing has been
  resolved, and the resolver held is that of the second promise.
\<close>

theorem confirm_supersede_leaves_pending:
  "fst (confirmDialog full_surface 0 ''Ignore channel'' ''Ignore bob?'' confirm_init) = 0
   \<and> fst (confirmDialog full_surface 1000 ''Unfollow game'' ''Unfollow Chess?''
            (snd (confirmDialog full_surface 0 ''Ignore channel'' ''Ignore bob?'' confirm_init))) = 1
   \<and> (\<forall>t. resolved (confirm_advance t
            (snd (confirmDialog full_surface 1000 ''Unfollow game'' ''Unfollow Chess?''
               (snd (confirmDialog full_surface 0 ''Ignore channel'' ''Ignore bob?'' confirm_init))))) = []
          \<and> confirmResolve (confirm_advance t
            (snd (confirmDialog full_surface 1000 ''Unfollow game'' ''Unfollow Chess?''
               (snd (confirmDialog full_surface 0 ''Ignore channel'' ''Ignore bob?'' confirm_init))))) = Some 1)"
  by (simp add: confirmDialog_def confirm_init_def full_surface_def confirm_advance_def
      closeConfirmModal_def openConfirmModal_def Let_def)

lemma missing_surface_close:
  assumes "\<not> has_modal sf \<or> \<not> has_overlay sf \<or> \<not> has_panel sf"
    and "confirmResolve st = Some p"
  shows "resolved (closeConfirmModal sf now r st) = resolved st @ [(p, r)]
         \<and> confirmResolve (closeConfirmModal sf now r st) = None
         \<and> confirmCloseTimer (closeConfirmModal sf now r st) = confirmCloseTimer st"
  using assms by (auto simp: closeConfirmModal_def resolve_pending_def)

lemma missing_surface_request:
  assumes sf: "\<not> has_modal sf \<or> \<not> has_overlay sf \<or> \<not> has_panel sf"
    and tm: "confirmCloseTimer st = None"
  shows "confirmResolve (snd (confirmDialog sf now t m st)) = Some (fst (confirmDialog sf now t m st))
         \<and> fst (confirmDialog sf now t m st) = nextPromise st
         \<and> resolved (snd (confirmDialog sf now t m st))
              = resolved st @ (case confirmResolve st of Some q \<Rightarrow> [(q, False)] | None \<Rightarrow> [])
         \<and> modalHidden (snd (confirmDialog sf now t m st)) = modalHidden st
         \<and> (\<forall>T. confirm_advance T (snd (confirmDialog sf now t m st)) = snd (confirmDialog sf now t m st))"
proof -
  have adv: "confirm_advance now st = st"
    using tm by (simp add: confirm_advance_def)
  show ?thesis
  proof (cases "confirmResolve st")
    case None
    then show ?thesis
      using sf tm adv
      by (auto simp: confirmDialog_def Let_def openConfirmModal_def confirm_advance_def)
  next
    case (Some q)
    then show ?thesis
      using sf tm adv
      by (auto simp: confirmDialog_def Let_def openConfirmModal_def confirm_advance_def
          closeConfirmModal_def resolve_pending_def)
  qed
qed

text \<open>
  C5, as the code has it. On a page that lacks the modal, the overlay or the panel,
  closing (\<^verbatim>\<open>_closeConfirmModal(r)\<close>, from a button, the backdrop, Escape or a newer
  request) resolves the pending confirmation at once with the \<open>r\<close> the closer passes,
  without the 200 ms timer. Requesting a confirmation there resolves only the one it
  supersedes (with \<^verbatim>\<open>false\<close>): the new promise is pending, nothing is shown, and the
  passing of time alone changes nothing.
\<close>

theorem confirm_missing_surface:
  assumes "\<not> has_modal sf \<or> \<not> has_overlay sf \<or> \<not> has_panel sf"
  shows "(\<forall>p. confirmResolve st = Some p \<longrightarrow>
            resolved (closeConfirmModal sf now r st) = resolved st @ [(p, r)]
            \<and> confirmResolve (closeConfirmModal sf now r st) = None)
         \<and> (confirmCloseTimer st = None \<longrightarrow>
              confirmResolve (snd (confirmDialog sf now t m st)) = Some (fst (confirmDialog sf now t m st))
              \<and> fst (confirmDialog sf now t m st) = nextPromise st
              \<and> resolved (snd (confirmDialog sf now t m st))
                   = resolved st @ (case confirmResolve st of Some q \<Rightarrow> [(q, False)] | None \<Rightarrow> [])
              \<and> modalHidden (snd (confirmDialog sf now t m st)) = modalHidden st
              \<and> (\<forall>T. confirm_advance T (snd (confirmDialog sf now t m st))
                        = snd (confirmDialog sf now t m st)))"
  using missing_surface_close [OF assms] missing_surface_request [OF assms] by blast

theorem confirm_missing_surface_witness:
  "resolved (closeConfirmModal no_modal_surface 5 True
       (snd (confirmDialog no_modal_surface 0 ''Ignore channel'' ''Ignore bob?'' confirm_init)))
     = [(0, True)]
   \<and> resolved (snd (confirmDialog no_modal_surface 7 ''Unfollow game'' ''Unfollow Chess?''
       (snd (confirmDialog no_modal_surface 0 ''Ignore channel'' ''Ignore bob?'' confirm_init))))
     = [(0, False)]"
proof -
  let ?st1 = "snd (confirmDialog no_modal_surface 0 ''Ignore channel'' ''Ignore bob?'' confirm_init)"
  have sf: "\<not> has_modal no_modal_surface \<or> \<not> has_overlay no_modal_surface \<or> \<not> has_panel no_modal_surface"
    by (simp add: no_modal_surface_def)
  have t0: "confirmCloseTimer confirm_init = None" "confirmResolve confirm_init = None"
    "resolved confirm_init = []" "nextPromise confirm_init = 0"
    by (simp_all add: confirm_init_def)
  from confirm_missing_surface [OF sf, of confirm_init 0 False "''Ignore channel''" "''Ignore bob?''"] t0
  have r1: "confirmResolve ?st1 = Some 0" "resolved ?st1 = []"
    "confirm_advance 0 ?st1 = ?st1"
    by simp_all
  have t1: "confirmCloseTimer ?st1 = None"
    by (simp add: confirmDialog_def confirm_init_def no_modal_surface_def confirm_advance_def
        openConfirmModal_def Let_def)
  have a: "resolved (closeConfirmModal no_modal_surface 5 True ?st1) = [(0, True)]"
    using confirm_missing_surface [OF sf, of ?st1 5 True] r1 by simp
  have b: "resolved (snd (confirmDialog no_modal_surface 7 ''Unfollow game'' ''Unfollow Chess?'' ?st1))
             = [(0, False)]"
    using confirm_missing_surface [OF sf, of ?st1 7 False "''Unfollow game''" "''Unfollow Chess?''"] r1 t1
    by simp
  show ?thesis using a b by simp
qed

text \<open>
  C5 as stated fails: on a page without the \<^verbatim>\<open>confirmModal\<close> element the request
  presents nothing and resolves nothing. \<^verbatim>\<open>confirmDialog\<close> takes no default; the promise
  is still pending, its resolver held, however long one waits.
\<close>

theorem confirm_missing_surface_counterexample:
  "resolved (confirm_advance 1000000
      (snd (confirmDialog no_modal_surface 0 ''Ignore channel'' ''Ignore bob?'' confirm_init))) = []
   \<and> confirmResolve (confirm_advance 1000000
      (snd (confirmDialog no_modal_surface 0 ''Ignore channel'' ''Ignore bob?'' confirm_init))) = Some 0"
  by (simp add: confirmDialog_def confirm_init_def no_modal_surface_def confirm_advance_def
      closeConfirmModal_def openConfirmModal_def Let_def)

section \<open>Properties of the persisted store and boot\<close>

lemma sequence_total:
  assumes "\<forall>x\<in>set xs. \<exists>v. f x = Inr v"
  shows "\<exists>vs. sequence (map f xs) = Inr vs"
  using assms
proof (induction xs)
  case Nil
  then show ?case by simp
next
  case (Cons x xs)
  then obtain v vs where "f x = Inr v" "sequence (map f xs) = Inr vs"
    by auto
  then show ?case by simp
qed

lemma ToString_plain: "plain v \<Longrightarrow> \<exists>s. ToString h v = Inr s"
proof (induction v)
  case (JArr xs)
  have "\<forall>x\<in>set xs. \<exists>s. (if nullish x then Inr [] else ToString h x) = Inr s"
    using JArr by (auto simp: list_all_iff)
  from sequence_total [OF this] show ?case
    by auto
qed simp_all


lemma ToNumber_plain: "plain v \<Longrightarrow> \<exists>n. ToNumber h v = Inr n"
proof (cases v)
  case (JArr xs)
  assume "plain v"
  then obtain s where "ToString h v = Inr s" using ToString_plain by blast
  then show ?thesis using JArr by simp
next
  case (JObj kvs)
  assume "plain v"
  then obtain s where "ToString h v = Inr s" using ToString_plain by blast
  then show ?thesis using JObj by simp
qed simp_all

lemma clampInt_plain: "plain v \<Longrightarrow> \<exists>n. clampInt h v = Inr n"
proof -
  assume "plain v"
  then obtain n where "ToNumber h v = Inr n" using ToNumber_plain by blast
  then show ?thesis by (cases n) (simp_all add: clampInt_def)
qed

lemma plain_get_prop: "plain v \<Longrightarrow> plain (get_prop v k)"
proof (cases v)
  case (JObj kvs)
  assume p: "plain v"
  show ?thesis
  proof (cases "map_of kvs k")
    case None
    then show ?thesis using JObj by simp
  next
    case (Some x)
    then have "(k, x) \<in> set kvs" by (rule map_of_SomeD)
    then have "plain x" using p JObj by (auto simp: list_all_iff)
    then show ?thesis using JObj Some by simp
  qed
qed simp_all

lemma plain_coalesce: "plain a \<Longrightarrow> plain b \<Longrightarrow> plain (coalesce a b)"
  by (simp add: coalesce_def)

lemma normalizeFilters_plain:
  assumes "plain raw"
  shows "\<exists>f. normalizeFilters h raw = Inr f"
proof -
  obtain a where a: "clampInt h (get_prop raw ''minViewers'') = Inr a"
    using clampInt_plain [OF plain_get_prop [OF assms]] by blast
  obtain b where b: "clampInt h (get_prop raw ''maxViewers'') = Inr b"
    using clampInt_plain [OF plain_get_prop [OF assms]] by blast
  obtain c where c: "clampInt h (get_prop raw ''minFollowers'') = Inr c"
    using clampInt_plain [OF plain_get_prop [OF assms]] by blast
  obtain d where d: "clampInt h (get_prop raw ''maxFollowers'') = Inr d"
    using clampInt_plain [OF plain_get_prop [OF assms]] by blast
  show ?thesis
    by (simp add: normalizeFilters_def a b c d)
qed

lemma normalize_object_plain:
  assumes "plain item"
  shows "\<exists>us. normalize_object h item = Inr us"
proof -
  let ?id = "coalesce (get_prop item ''id'') (get_prop item ''user_id'')"
  let ?name = "coalesce (coalesce (get_prop item ''name'') (get_prop item ''user_name'')) JNull"
  have "plain ?id"
    by (intro plain_coalesce plain_get_prop assms)
  then obtain sid where sid: "ToString h ?id = Inr sid"
    using ToString_plain by blast
  have "plain ?name"
    by (intro plain_coalesce plain_get_prop assms) simp
  then obtain sname where sname: "ToString h ?name = Inr sname"
    using ToString_plain by blast
  show ?thesis
    by (simp add: normalize_object_def Let_def sid sname)
qed

lemma normalize_item_plain:
  assumes "plain item"
  shows "\<exists>us. normalize_item h item = Inr us"
  using normalize_object_plain [OF assms, of h]
  by (cases item) (simp_all add: normalize_item_def)

lemma normalizeIgnored_plain:
  assumes "plain raw"
  shows "\<exists>us. normalizeIgnored h raw = Inr us"
proof (cases raw)
  case (JArr items)
  have "\<forall>x\<in>set items. \<exists>us. normalize_item h x = Inr us"
    using assms JArr normalize_item_plain by (auto simp: list_all_iff)
  from sequence_total [OF this] obtain outs where
    "sequence (map (normalize_item h) items) = Inr outs" by blast
  then show ?thesis using JArr by (simp add: normalizeIgnored_def)
qed (simp_all add: normalizeIgnored_def)

lemma map_String_plain:
  assumes "plain (JArr xs)"
  shows "\<exists>ids. map_String h (JArr xs) = Inr ids"
proof -
  have "\<forall>x\<in>set xs. \<exists>s. ToString h x = Inr s"
    using assms ToString_plain by (auto simp: list_all_iff)
  from sequence_total [OF this] show ?thesis
    by (simp add: map_String_def)
qed

lemma distinct_unique: "distinct (unique xs)"
  by (simp add: unique_def)

lemma plain_strings: "plain (JArr (map JStr xs))"
  by (simp add: list_all_iff)

lemma getJsonCookie_cases:
  "(getCookie h ck name = Inl URIError \<longrightarrow> getJsonCookie h ck name fb = Inl URIError)
   \<and> (getCookie h ck name = Inr None \<longrightarrow> getJsonCookie h ck name fb = Inr fb)
   \<and> (\<forall>raw. getCookie h ck name = Inr (Some raw) \<and> (raw = [] \<or> jsonParse h raw = None) \<longrightarrow>
          getJsonCookie h ck name fb = Inr fb)
   \<and> (\<forall>raw v. getCookie h ck name = Inr (Some raw) \<and> raw \<noteq> [] \<and> jsonParse h raw = Some v \<longrightarrow>
          getJsonCookie h ck name fb = Inr v)"
  by (auto simp: getJsonCookie_def)

lemma boot_total:
  assumes g: "getJsonCookie h ck ''followed_games'' (JArr []) = Inr cg"
    and i: "getJsonCookie h ck ''ignored_streamers'' (JArr []) = Inr ci"
    and f: "getJsonCookie h ck ''stream_filters'' JNull = Inr cf"
    and p: "plain cg" "plain ci" "plain cf"
    and arr: "parseCsvParam games \<noteq> [] \<or> (\<exists>xs. cg = JArr xs)"
  shows "\<exists>s. boot h ck games ignored = Inr s
             \<and> distinct (bt_followedGameIds s) \<and> distinct (map uid (bt_ignoredUsers s))"
proof -
  let ?ids = "if parseCsvParam games \<noteq> [] then Inr (parseCsvParam games) else map_String h cg"
  let ?raw = "if parseCsvParam ignored \<noteq> [] then JArr (map JStr (parseCsvParam ignored)) else ci"
  obtain ids where ids: "?ids = Inr ids"
  proof (cases "parseCsvParam games \<noteq> []")
    case True
    then show ?thesis using that by simp
  next
    case False
    then obtain xs where "cg = JArr xs" using arr by blast
    then show ?thesis using that False map_String_plain [of xs h] p(1) by auto
  qed
  have "plain ?raw" using p(2) plain_strings by simp
  then obtain ign where ign: "normalizeIgnored h ?raw = Inr ign"
    using normalizeIgnored_plain by blast
  obtain fl where fl: "normalizeFilters h cf = Inr fl"
    using normalizeFilters_plain [OF p(3)] by blast
  have "boot h ck games ignored
          = Inr \<lparr>bt_followedGameIds = unique ids, bt_ignoredUsers = ign, bt_filters = fl\<rparr>"
    using ids ign fl by (simp add: boot_def Let_def g i f)
  moreover have "distinct (map uid ign)"
    using ign by (rule normalizeIgnored_distinct)
  ultimately show ?thesis
    by (simp add: distinct_unique)
qed


text \<open>
  C10, as the code has it. \<^verbatim>\<open>getJsonCookie\<close> returns the fallback when the cookie is
  absent, empty or not valid JSON, and the parsed value otherwise; when the stored text
  is not valid percent-encoding it throws the URIError of \<^verbatim>\<open>decodeURIComponent\<close>.
  \<^verbatim>\<open>normalizeFilters\<close> and \<^verbatim>\<open>normalizeIgnored\<close> return a filters record and a list
  of entries with pairwise distinct string ids for every value in which no object has
  an own property \<^verbatim>\<open>toString\<close> (the defaults for a value that is not an object,
  respectively not an array); whatever \<^verbatim>\<open>normalizeIgnored\<close> returns has distinct ids.
  \<^verbatim>\<open>boot\<close> computes its state, with distinct followed ids and distinct ignored ids,
  when the three cookies decode, hold such values, and the followed-games cookie is
  an array or overridden by the URL.
\<close>

theorem boot_on_stored_values:
  "(getCookie h ck name = Inr None \<longrightarrow> getJsonCookie h ck name fb = Inr fb)
   \<and> (\<forall>stored. getCookie h ck name = Inr (Some stored) \<and> (stored = [] \<or> jsonParse h stored = None) \<longrightarrow>
          getJsonCookie h ck name fb = Inr fb)
   \<and> (\<forall>stored v. getCookie h ck name = Inr (Some stored) \<and> stored \<noteq> [] \<and> jsonParse h stored = Some v \<longrightarrow>
          getJsonCookie h ck name fb = Inr v)
   \<and> (getCookie h ck name = Inl URIError \<longrightarrow> getJsonCookie h ck name fb = Inl URIError)
   \<and> (plain raw \<longrightarrow> (\<exists>f. normalizeFilters h raw = Inr f) \<and> (\<exists>us. normalizeIgnored h raw = Inr us))
   \<and> (\<forall>us. normalizeIgnored h raw = Inr us \<longrightarrow> distinct (map uid us))
   \<and> (\<not> truthy raw \<or> \<not> typeof_object raw \<longrightarrow> normalizeFilters h raw = Inr base_filters)
   \<and> ((\<forall>xs. raw \<noteq> JArr xs) \<longrightarrow> normalizeIgnored h raw = Inr [])
   \<and> (\<forall>cg ci cf.
         getJsonCookie h ck ''followed_games'' (JArr []) = Inr cg
         \<and> getJsonCookie h ck ''ignored_streamers'' (JArr []) = Inr ci
         \<and> getJsonCookie h ck ''stream_filters'' JNull = Inr cf
         \<and> plain cg \<and> plain ci \<and> plain cf
         \<and> (parseCsvParam games \<noteq> [] \<or> (\<exists>xs. cg = JArr xs)) \<longrightarrow>
         (\<exists>s. boot h ck games ignored = Inr s
              \<and> distinct (bt_followedGameIds s) \<and> distinct (map uid (bt_ignoredUsers s))))"
proof -
  note c = getJsonCookie_cases [of h ck name fb]
  have n1: "plain raw \<longrightarrow> (\<exists>f. normalizeFilters h raw = Inr f) \<and> (\<exists>us. normalizeIgnored h raw = Inr us)"
    using normalizeFilters_plain normalizeIgnored_plain by blast
  have n2: "\<forall>us. normalizeIgnored h raw = Inr us \<longrightarrow> distinct (map uid us)"
    using normalizeIgnored_distinct by blast
  have n3: "\<not> truthy raw \<or> \<not> typeof_object raw \<longrightarrow> normalizeFilters h raw = Inr base_filters"
    by (simp add: normalizeFilters_def)
  have n4: "(\<forall>xs. raw \<noteq> JArr xs) \<longrightarrow> normalizeIgnored h raw = Inr []"
    by (cases raw) (simp_all add: normalizeIgnored_def)
  have b: "\<forall>cg ci cf.
         getJsonCookie h ck ''followed_games'' (JArr []) = Inr cg
         \<and> getJsonCookie h ck ''ignored_streamers'' (JArr []) = Inr ci
         \<and> getJsonCookie h ck ''stream_filters'' JNull = Inr cf
         \<and> plain cg \<and> plain ci \<and> plain cf
         \<and> (parseCsvParam games \<noteq> [] \<or> (\<exists>xs. cg = JArr xs)) \<longrightarrow>
         (\<exists>s. boot h ck games ignored = Inr s
              \<and> distinct (bt_followedGameIds s) \<and> distinct (map uid (bt_ignoredUsers s)))"
    using boot_total [of h ck _ _ _ games ignored] by blast
  show ?thesis
    using c n1 n2 n3 n4 b by blast
qed

lemma example_cookie:
  "getJsonCookie example_host ''a=1; followed_games=[]'' ''followed_games'' (JArr []) = Inr (JArr [])"
  "getJsonCookie example_host ''a=1; followed_games=[]'' ''ignored_streamers'' (JArr []) = Inr (JArr [])"
  "getJsonCookie example_host ''a=1; followed_games=[]'' ''stream_filters'' JNull = Inr JNull"
  by (simp_all add: getJsonCookie_def getCookie_def trim_def is_space_def example_host_def)

theorem boot_on_stored_values_witness:
  "\<exists>s. boot example_host ''a=1; followed_games=[]'' (Some ''33214, 509658'') None = Inr s
       \<and> distinct (bt_followedGameIds s) \<and> distinct (map uid (bt_ignoredUsers s))"
proof -
  have p: "plain (JArr []) \<and> plain (JArr []) \<and> plain JNull" by simp
  have g: "parseCsvParam (Some ''33214, 509658'') \<noteq> [] \<or> (\<exists>xs. JArr [] = JArr xs)" by simp
  show ?thesis
    using boot_on_stored_values [of example_host "''a=1; followed_games=[]''" "''x''" JNull JNull
        "Some ''33214, 509658''" None] example_cookie p g
    by blast
qed

text \<open>
  C10 as stated fails: a followed-games cookie that is valid JSON but not an array (the
  number 5) makes \<^verbatim>\<open>boot\<close> throw a TypeError at \<^verbatim>\<open>cookieGames.map(String)\<close>, and a
  cookie that is not valid percent-encoding makes \<^verbatim>\<open>getJsonCookie\<close>, hence \<^verbatim>\<open>boot\<close>,
  throw a URIError instead of returning the fallback.
\<close>

theorem boot_corrupt_cookie_counterexample:
  "boot example_host ''followed_games=5'' None None = Inl TypeError
   \<and> getJsonCookie example_host ''stream_filters=%'' ''stream_filters'' JNull = Inl URIError
   \<and> boot example_host ''stream_filters=%'' None None = Inl URIError"
  by (simp add: boot_def getJsonCookie_def getCookie_def trim_def is_space_def example_host_def
      parseCsvParam_def map_String_def Let_def)

section \<open>Properties of the reconciliation\<close>

text \<open>
  C1 at the failing input. Payload A shows stream \<open>s1\<close> of game \<open>g1\<close> at time 0; payload
  B, without \<open>s1\<close>, arrives at 1000 and starts the exit of its row; payload C, with \<open>s1\<close>
  again, arrives at 1100, before the removal (1280) and before the deferred pass
  (1320). The reconciliation of C finds the exiting row in \<^verbatim>\<open>existing\<close> and reuses it:
  the only node for \<open>s1\<close> is the row of A, still marked exiting. The deferred pass of B is
  skipped by its version check, but the removal timer of the row runs: once the view has
  settled there is no node for \<open>s1\<close>.
\<close>

theorem reappearing_stream_is_removed:
  "stream_nodes (render_at 0 [example_group ''g1'' [''s1'']] empty_view) ''g1'' ''s1''
     = [\<lparr>row_id = 0, streamId = ''s1'', row_exiting = False, streamData = example_stream ''s1''\<rparr>]
   \<and> stream_nodes
        (render_at 1100 [example_group ''g1'' [''s1'']]
          (render_at 1000 [example_group ''g1'' []]
            (render_at 0 [example_group ''g1'' [''s1'']] empty_view))) ''g1'' ''s1''
     = [\<lparr>row_id = 0, streamId = ''s1'', row_exiting = True, streamData = example_stream ''s1''\<rparr>]
   \<and> stream_nodes
        (settle
          (render_at 1100 [example_group ''g1'' [''s1'']]
            (render_at 1000 [example_group ''g1'' []]
              (render_at 0 [example_group ''g1'' [''s1'']] empty_view)))) ''g1'' ''s1''
     = []"
  by code_simp


section \<open>Properties of the settled view\<close>

lemma node_simps [simp]:
  "fst (node r) = row_id r" "fst (snd (node r)) = streamId r" "snd (snd (node r)) = row_exiting r"
  "node (r\<lparr>streamData := s\<rparr>) = node r"
  by (simp_all add: node_def)











lemma live_set [simp]: "r \<in> set (live rs) \<longleftrightarrow> r \<in> set rs \<and> \<not> row_exiting r"
  by (simp add: live_def)

lemma live_distinct: "distinct (map streamId rs) \<Longrightarrow> distinct (map streamId (live rs))"
  unfolding live_def by (rule distinct_map_filter)













lemma fire_card_fields [simp]:
  "card_id (fire_card t c) = card_id c" "gameId (fire_card t c) = gameId c"
  "card_exiting (fire_card t c) = card_exiting c"
  by (cases t; simp add: fire_card_def deferred_pass_def Let_def split: prod.splits)+















lemma cards_of_append [simp]: "cards_of (a @ b) = cards_of a @ cards_of b"
  by (induction a rule: cards_of.induct) simp_all






lemma update_header_fields [simp]:
  "card_id (update_header g c) = card_id c" "gameId (update_header g c) = gameId c"
  "card_exiting (update_header g c) = card_exiting c" "rows (update_header g c) = rows c"
  "next_row (update_header g c) = next_row c"
  by (simp_all add: update_header_def)

lemma new_card_fields [simp]:
  "card_id (new_card n g) = n" "gameId (new_card n g) = game_id g"
  "card_exiting (new_card n g) = False" "rows (new_card n g) = []"
  by (simp_all add: new_card_def)

















lemma fire_fields [simp]: "next_card (fire v t) = next_card v" "timers (fire v t) = timers v"
  by (cases t; simp)+






lemma foldl_fire_next_card: "next_card (foldl fire v T) = next_card v"
  by (induction T arbitrary: v) simp_all















text \<open>
  The hypothesis on exiting nodes cannot be dropped. A game that leaves the payload and
  comes back while its card is still exiting is given the exiting card, which the exit
  callback of the card then removes: the session is not admissible, and once settled the
  view holds no card for a game of the latest payload. The same happens to a stream
  within a game.
\<close>

lemma reappearing_game_is_removed:
  "\<not> admissible empty_view
       [(0, [example_group ''g1'' [''s1'']]), (1000, []), (1100, [example_group ''g1'' [''s1'']])]
   \<and> game_nodes
        (settle (run empty_view
           [(0, [example_group ''g1'' [''s1'']]), (1000, []), (1100, [example_group ''g1'' [''s1'']])]))
        ''g1'' = []"
  by code_simp

end
